theory Spec2Isabelle
  imports Complex_Main "HOL-Library.Sublist"
begin

section \<open>Strings\<close>

text \<open>
  Python strings are modelled as HOL strings (lists of characters).  \<open>str.lower\<close> is
  modelled on the ASCII range: the letters \<open>A\<close> to \<open>Z\<close> (codes 65 to 90) get bit 5 set,
  every other character is unchanged.
\<close>

definition lower_char :: "char \<Rightarrow> char" where
  "lower_char c =
     (if 65 \<le> (of_char c :: nat) \<and> (of_char c :: nat) \<le> 90
      then Char (digit0 c) (digit1 c) (digit2 c) (digit3 c) (digit4 c) True (digit6 c) (digit7 c)
      else c)"

definition lower :: "string \<Rightarrow> string" where
  "lower s = map lower_char s"

text \<open>
  \<open>str.strip()\<close> removes leading and trailing whitespace; on the ASCII range the
  whitespace characters are the codes 9 to 13, 28 to 31 and 32.
\<close>

definition is_space :: "char \<Rightarrow> bool" where
  "is_space c =
     ((9 \<le> (of_char c :: nat) \<and> (of_char c :: nat) \<le> 13) \<or>
      (28 \<le> (of_char c :: nat) \<and> (of_char c :: nat) \<le> 32))"

definition strip :: "string \<Rightarrow> string" where
  "strip s = rev (dropWhile is_space (rev (dropWhile is_space s)))"

text \<open>
  \<open>sub in s\<close> on Python strings is the contiguous-substring test, which is \<^const>\<open>sublist\<close>.
  \<open>s.count(sub)\<close> counts the non-overlapping occurrences of \<open>sub\<close> in \<open>s\<close>, scanning from
  the left and jumping over each occurrence found; for the empty \<open>sub\<close> it is \<open>len(s) + 1\<close>.
\<close>

function str_count :: "string \<Rightarrow> string \<Rightarrow> nat" where
  "str_count s sub =
     (if sub = [] then Suc (length s)
      else if length s < length sub then 0
      else if take (length sub) s = sub then Suc (str_count (drop (length sub) s) sub)
      else str_count (tl s) sub)"
  by pat_completeness auto
termination
proof (relation "measure (\<lambda>(s, sub). length s)")
  show "wf (measure (\<lambda>(s, sub). length s))" by simp
next
  fix s sub :: string
  assume "sub \<noteq> []" and "\<not> length s < length sub"
  then have "0 < length sub" and "0 < length s" by auto
  then show "((drop (length sub) s, sub), (s, sub)) \<in> measure (\<lambda>(s, sub). length s)"
    by simp
next
  fix s sub :: string
  assume "sub \<noteq> []" and "\<not> length s < length sub"
  then have "s \<noteq> []" by auto
  then show "((tl s, sub), (s, sub)) \<in> measure (\<lambda>(s, sub). length s)"
    by (cases s) simp_all
qed

declare str_count.simps [simp del]

section \<open>Database models\<close>

text \<open>
  The four tables of the application.  Timestamps are natural numbers, nullable columns
  are options, the float column \<open>relevance_score\<close> is an exact rational.
\<close>

record keyword =
  kw_id :: nat
  kw_term :: string
  kw_active :: bool
  kw_created_at :: nat

record source =
  src_id :: nat
  src_name :: string
  src_url :: string
  source_type :: string
  src_active :: bool
  last_scraped :: "nat option"
  src_created_at :: nat

record article =
  art_id :: nat
  art_title :: string
  art_content :: string
  art_summary :: "string option"
  art_url :: string
  art_author :: "string option"
  art_published_date :: "nat option"
  art_scraped_date :: nat
  art_source_id :: nat

record article_keyword =
  ak_id :: nat
  ak_article_id :: nat
  ak_keyword_id :: nat
  relevance_score :: rat

record store =
  keyword_tbl :: "keyword list"
  source_tbl :: "source list"
  articles :: "article list"
  article_keywords :: "article_keyword list"

section \<open>The outside world\<close>

text \<open>
  What \<open>BeautifulSoup\<close> answers about a fetched page, after the \<open>script\<close> and \<open>style\<close>
  elements have been removed: the text of the whole document, the text of the first
  \<open>title\<close> element if there is one, for each CSS selector the stripped text of the first
  element it selects if there is one, the stripped text of the \<open>body\<close> element if there is
  one, and the stripped text of the whole document.
\<close>

record soup =
  get_text :: string
  find_title :: "string option"
  select_one :: "string \<Rightarrow> string option"
  find_body :: "string option"
  get_text_strip :: string

text \<open>One entry of a parsed feed; \<open>None\<close> is an absent key.\<close>

record feed_entry =
  e_title :: "string option"
  e_description :: "string option"
  e_summary :: "string option"
  e_link :: "string option"
  e_author :: "string option"
  e_published :: "string option"

text \<open>
  Everything a run reads from outside the store:
  \<^item> \<open>feed_entries url\<close>: the entries \<open>feedparser.parse(url)\<close> gives, \<open>None\<close> when it raises;
  \<^item> \<open>fetch_page url\<close>: the parsed page, \<open>None\<close> when the request, the status check or
    the parser raises;
  \<^item> \<open>parsedate\<close>: the date parser of the standard library, \<open>None\<close> when it raises;
  \<^item> \<open>utcnow i\<close>: the clock while the source with id \<open>i\<close> is processed (the clock
    reads within one unit of work are taken to give the same instant);
  \<^item> \<open>storage_fault i\<close>: how many database calls succeed while the source with id \<open>i\<close>
    is processed before one raises; \<open>None\<close> when none raises.
\<close>

record world =
  feed_entries :: "string \<Rightarrow> feed_entry list option"
  fetch_page :: "string \<Rightarrow> soup option"
  parsedate :: "string \<Rightarrow> nat option"
  utcnow :: "nat \<Rightarrow> nat"
  storage_fault :: "nat \<Rightarrow> nat option"

section \<open>ContentScraper\<close>

text \<open>One element of the list returned by \<open>check_keyword_matches\<close>: the dictionary
  \<open>{'keyword': keyword, 'score': score}\<close>.\<close>

record kw_match =
  m_keyword :: keyword
  m_score :: rat

text \<open>The dictionary that \<open>scrape_website\<close> returns and \<open>scrape_rss\<close> collects; the
  website dictionary has no author and no publication date.\<close>

record article_data =
  d_title :: string
  d_content :: string
  d_url :: string
  d_author :: "string option"
  d_published_date :: "nat option"
  d_matches :: "kw_match list"

fun check_keyword_matches_loop :: "string \<Rightarrow> keyword list \<Rightarrow> kw_match list \<Rightarrow> kw_match list" where
  "check_keyword_matches_loop content_lower [] matches = matches"
| "check_keyword_matches_loop content_lower (k # ks) matches =
     (if sublist (lower (kw_term k)) content_lower
      then check_keyword_matches_loop content_lower ks
             (matches @ [\<lparr>m_keyword = k,
                          m_score = min (of_nat (str_count content_lower (lower (kw_term k))) / 10) 1\<rparr>])
      else check_keyword_matches_loop content_lower ks matches)"

definition check_keyword_matches :: "string \<Rightarrow> keyword list \<Rightarrow> kw_match list" where
  "check_keyword_matches content kws = check_keyword_matches_loop (lower content) kws []"

definition article_selectors :: "string list" where
  "article_selectors =
     [''article'', ''[role=\"main\"]'', ''.article-content'', ''.post-content'',
      ''#content'', ''.entry-content'', ''.story-body'', ''.article-body'']"

fun extract_loop :: "soup \<Rightarrow> string list \<Rightarrow> string option" where
  "extract_loop sp [] = None"
| "extract_loop sp (selector # selectors) =
     (case select_one sp selector of
        Some text \<Rightarrow> Some text
      | None \<Rightarrow> extract_loop sp selectors)"

definition extract_article_content :: "soup \<Rightarrow> string" where
  "extract_article_content sp =
     (case extract_loop sp article_selectors of
        Some text \<Rightarrow> text
      | None \<Rightarrow> (case find_body sp of Some text \<Rightarrow> text | None \<Rightarrow> get_text_strip sp))"

definition scrape_website :: "world \<Rightarrow> string \<Rightarrow> keyword list \<Rightarrow> article_data option" where
  "scrape_website w url kws =
     (case fetch_page w url of
        None \<Rightarrow> None
      | Some sp \<Rightarrow>
          (let text_content = get_text sp;
               title = (case find_title sp of Some t \<Rightarrow> t | None \<Rightarrow> url);
               keyword_matches = check_keyword_matches text_content kws
           in if keyword_matches \<noteq> []
              then Some \<lparr>d_title = strip title,
                         d_content = take 5000 (extract_article_content sp),
                         d_url = url,
                         d_author = None,
                         d_published_date = None,
                         d_matches = keyword_matches\<rparr>
              else None))"

definition get_or :: "'a option \<Rightarrow> 'a \<Rightarrow> 'a" where
  "get_or v d = (case v of Some x \<Rightarrow> x | None \<Rightarrow> d)"

definition parse_date :: "world \<Rightarrow> string option \<Rightarrow> nat option" where
  "parse_date w date_string =
     (case date_string of
        None \<Rightarrow> None
      | Some ds \<Rightarrow> if ds = [] then None else parsedate w ds)"

definition entry_title :: "feed_entry \<Rightarrow> string" where
  "entry_title entry = get_or (e_title entry) []"

definition entry_content :: "feed_entry \<Rightarrow> string" where
  "entry_content entry = get_or (e_description entry) [] @ '' '' @ get_or (e_summary entry) []"

fun scrape_rss_loop ::
  "world \<Rightarrow> keyword list \<Rightarrow> feed_entry list \<Rightarrow> article_data list \<Rightarrow> article_data list" where
  "scrape_rss_loop w kws [] arts = arts"
| "scrape_rss_loop w kws (entry # entries) arts =
     (let title = entry_title entry;
          content = entry_content entry;
          keyword_matches = check_keyword_matches (title @ '' '' @ content) kws
      in if keyword_matches \<noteq> []
         then scrape_rss_loop w kws entries
                (arts @ [\<lparr>d_title = title,
                          d_content = take 5000 content,
                          d_url = get_or (e_link entry) [],
                          d_author = Some (get_or (e_author entry) []),
                          d_published_date = parse_date w (e_published entry),
                          d_matches = keyword_matches\<rparr>])
         else scrape_rss_loop w kws entries arts)"

definition scrape_rss :: "world \<Rightarrow> string \<Rightarrow> keyword list \<Rightarrow> article_data list" where
  "scrape_rss w rss_url kws =
     (case feed_entries w rss_url of
        None \<Rightarrow> []
      | Some entries \<Rightarrow> scrape_rss_loop w kws (take 10 entries) [])"

section \<open>The database session\<close>

text \<open>
  A unit of work runs on the session's view \<open>tx\<close> of the store, which starts as the
  committed store and becomes the committed store when the commit succeeds.  The session
  flushes its pending rows before each query (autoflush is on by default), so a query
  sees every row added earlier in the same unit.  Every call that reaches the database
  (a query with its autoflush, a flush, the commit with its flush) may raise; the budget
  says how many of them still succeed.  A call that raises is taken to fail as a flush
  does: the session rolls its transaction back, so nothing of the unit reaches the store.
\<close>

datatype error = StorageError | PendingRollbackError

fun storage_call :: "nat option \<Rightarrow> error + nat option" where
  "storage_call None = Inr None"
| "storage_call (Some 0) = Inl StorageError"
| "storage_call (Some (Suc n)) = Inr (Some n)"

text \<open>A new row of a table with an integer primary key gets the largest id in use plus one.\<close>

definition next_id :: "nat list \<Rightarrow> nat" where
  "next_id ids = Suc (foldr max ids 0)"

fun add_keyword_rows :: "nat \<Rightarrow> kw_match list \<Rightarrow> store \<Rightarrow> store" where
  "add_keyword_rows aid [] tx = tx"
| "add_keyword_rows aid (keyword_match # ms) tx =
     add_keyword_rows aid ms
       (tx\<lparr>article_keywords := article_keywords tx @
             [\<lparr>ak_id = next_id (map ak_id (article_keywords tx)),
               ak_article_id = aid,
               ak_keyword_id = kw_id (m_keyword keyword_match),
               relevance_score = m_score keyword_match\<rparr>]\<rparr>)"

definition new_article :: "nat \<Rightarrow> nat \<Rightarrow> source \<Rightarrow> article_data \<Rightarrow> article" where
  "new_article aid now src d =
     \<lparr>art_id = aid,
      art_title = d_title d,
      art_content = d_content d,
      art_summary = None,
      art_url = d_url d,
      art_author = d_author d,
      art_published_date = d_published_date d,
      art_scraped_date = now,
      art_source_id = src_id src\<rparr>"

text \<open>
  The block both branches of \<open>run_content_scraping\<close> run on one scraped dictionary: look
  for an article with this URL, and when there is none add the article, flush, and add
  one association row for each keyword match.
\<close>

definition persist_article ::
  "nat \<Rightarrow> source \<Rightarrow> article_data \<Rightarrow> store \<times> nat option \<Rightarrow> error + store \<times> nat option" where
  "persist_article now src d st =
     (case st of (tx, budget) \<Rightarrow>
        (case storage_call budget of
           Inl e \<Rightarrow> Inl e
         | Inr budget1 \<Rightarrow>
             if d_url d \<in> art_url ` set (articles tx) then Inr (tx, budget1)
             else
               (case storage_call budget1 of
                  Inl e \<Rightarrow> Inl e
                | Inr budget2 \<Rightarrow>
                    (let aid = next_id (map art_id (articles tx));
                         tx1 = tx\<lparr>articles := articles tx @ [new_article aid now src d]\<rparr>
                     in Inr (add_keyword_rows aid (d_matches d) tx1, budget2)))))"

fun persist_articles ::
  "nat \<Rightarrow> source \<Rightarrow> article_data list \<Rightarrow> store \<times> nat option \<Rightarrow> error + store \<times> nat option" where
  "persist_articles now src [] st = Inr st"
| "persist_articles now src (d # ds) st =
     (case persist_article now src d st of
        Inl e \<Rightarrow> Inl e
      | Inr st1 \<Rightarrow> persist_articles now src ds st1)"

definition set_last_scraped :: "nat \<Rightarrow> nat \<Rightarrow> store \<Rightarrow> store" where
  "set_last_scraped sid now tx =
     tx\<lparr>source_tbl :=
          map (\<lambda>s. if src_id s = sid then s\<lparr>last_scraped := Some now\<rparr> else s) (source_tbl tx)\<rparr>"

section \<open>run\_content\_scraping\<close>

text \<open>
  The body of the \<open>try\<close> block for one source: \<open>Inr\<close> the committed store, or \<open>Inl\<close> the
  exception that reaches the \<open>except\<close> clause.  The exceptions of the
  scrapers never reach this block: \<open>scrape_website\<close> and \<open>scrape_rss\<close> catch them and
  return \<open>None\<close> and the empty list.  The progress messages and the pause between two
  sources have no effect on the store and are left out.
\<close>

definition process_source :: "world \<Rightarrow> keyword list \<Rightarrow> store \<Rightarrow> source \<Rightarrow> error + store" where
  "process_source w kws db src =
     (let now = utcnow w (src_id src);
          st = (db, storage_fault w (src_id src))
      in case (if source_type src = ''rss''
               then persist_articles now src (scrape_rss w (src_url src) kws) st
               else (case scrape_website w (src_url src) kws of
                       None \<Rightarrow> Inr st
                     | Some d \<Rightarrow> persist_article now src d st)) of
           Inl e \<Rightarrow> Inl e
         | Inr (tx, budget) \<Rightarrow>
             (case storage_call budget of
                Inl e \<Rightarrow> Inl e
              | Inr budget1 \<Rightarrow> Inr (set_last_scraped (src_id src) now tx)))"

text \<open>
  The loop over the sources.  When the unit of a source raises, the \<open>except\<close> clause
  first formats its message with \<open>source.name\<close> and only then calls \<open>rollback\<close>.  The
  failed flush has already rolled the session's transaction back, left the session
  inactive and expired its objects, so reading \<open>source.name\<close> has to go to the database
  on an inactive session and raises in turn, before \<open>rollback\<close> is reached.  That exception
  leaves the loop and \<open>run_content_scraping\<close>: the sources that follow are not
  processed.  The result is the exception that leaves the run, if any, and the store as
  the last commit left it.
\<close>

fun run_sources ::
  "world \<Rightarrow> keyword list \<Rightarrow> store \<Rightarrow> source list \<Rightarrow> error option \<times> store" where
  "run_sources w kws db [] = (None, db)"
| "run_sources w kws db (src # srcs) =
     (case process_source w kws db src of
        Inl e \<Rightarrow> (Some PendingRollbackError, db)
      | Inr db1 \<Rightarrow> run_sources w kws db1 srcs)"

definition run_content_scraping :: "world \<Rightarrow> store \<Rightarrow> error option \<times> store" where
  "run_content_scraping w db =
     run_sources w (filter kw_active (keyword_tbl db)) db (filter src_active (source_tbl db))"

section \<open>Auxiliary notions for the statements\<close>

text \<open>The dictionaries scraped for one source, whichever its type.\<close>

definition scraped :: "world \<Rightarrow> keyword list \<Rightarrow> source \<Rightarrow> article_data list" where
  "scraped w kws src =
     (if source_type src = ''rss'' then scrape_rss w (src_url src) kws
      else (case scrape_website w (src_url src) kws of None \<Rightarrow> [] | Some d \<Rightarrow> [d]))"

text \<open>\<open>cur\<close> is \<open>old\<close> followed by new elements that all satisfy \<open>P\<close>.\<close>

definition appended :: "('a \<Rightarrow> bool) \<Rightarrow> 'a list \<Rightarrow> 'a list \<Rightarrow> bool" where
  "appended P old cur \<longleftrightarrow> (\<exists>new. cur = old @ new \<and> list_all P new)"

text \<open>\<open>cur\<close> is \<open>old\<close> followed by articles whose URLs differ from each other and from those of \<open>old\<close>.\<close>

definition fresh_ext :: "article list \<Rightarrow> article list \<Rightarrow> bool" where
  "fresh_ext old cur \<longleftrightarrow>
     (\<exists>new. cur = old @ new \<and> distinct (map art_url new) \<and>
            list_all (\<lambda>a. art_url a \<notin> art_url ` set old) new)"

text \<open>What \<open>scrape_rss\<close> computes for one entry: its keyword matches and its dictionary.\<close>

definition entry_matches :: "keyword list \<Rightarrow> feed_entry \<Rightarrow> kw_match list" where
  "entry_matches kws entry =
     check_keyword_matches (entry_title entry @ '' '' @ entry_content entry) kws"

definition entry_data :: "world \<Rightarrow> keyword list \<Rightarrow> feed_entry \<Rightarrow> article_data" where
  "entry_data w kws entry =
     \<lparr>d_title = entry_title entry,
      d_content = take 5000 (entry_content entry),
      d_url = get_or (e_link entry) [],
      d_author = Some (get_or (e_author entry) []),
      d_published_date = parse_date w (e_published entry),
      d_matches = entry_matches kws entry\<rparr>"

text \<open>
  What the persistence block does to the session's view for one dictionary when no
  database call raises, and the whole unit of work of one source in that case.
\<close>

definition insert_unit :: "nat \<Rightarrow> source \<Rightarrow> article_data \<Rightarrow> store \<Rightarrow> store" where
  "insert_unit now src d tx =
     (if d_url d \<in> art_url ` set (articles tx) then tx
      else add_keyword_rows (next_id (map art_id (articles tx))) (d_matches d)
             (tx\<lparr>articles := articles tx @
                   [new_article (next_id (map art_id (articles tx))) now src d]\<rparr>))"

definition unit_of_work :: "world \<Rightarrow> keyword list \<Rightarrow> store \<Rightarrow> source \<Rightarrow> store" where
  "unit_of_work w kws db src =
     set_last_scraped (src_id src) (utcnow w (src_id src))
       (fold (insert_unit (utcnow w (src_id src)) src) (scraped w kws src) db)"

text \<open>The rows \<open>rows\<close> are the association rows of article \<open>a\<close> for the matches \<open>ms\<close>:
  one row for each match, in order, with the article's id, the keyword's id and the score.\<close>

definition rows_for :: "article \<Rightarrow> kw_match list \<Rightarrow> article_keyword list \<Rightarrow> bool" where
  "rows_for a ms rows \<longleftrightarrow>
     list_all2 (\<lambda>m r. ak_article_id r = art_id a \<and> ak_keyword_id r = kw_id (m_keyword m) \<and>
                       relevance_score r = m_score m) ms rows"


text \<open>The stored content \<open>c\<close> is the body \<open>body\<close> under the cap of 5000 characters.\<close>

definition capped :: "string \<Rightarrow> string \<Rightarrow> bool" where
  "capped body c \<longleftrightarrow>
     c = take 5000 body \<and> (5000 < length body \<longrightarrow> length c = 5000) \<and>
     (length body \<le> 5000 \<longrightarrow> c = body)"

text \<open>The element \<open>check_keyword_matches\<close> appends for a matching keyword.\<close>

definition mk_match :: "string \<Rightarrow> keyword \<Rightarrow> kw_match" where
  "mk_match content_lower k =
     \<lparr>m_keyword = k, m_score = min (of_nat (str_count content_lower (lower (kw_term k))) / 10) 1\<rparr>"

section \<open>Triggers of a run\<close>

text \<open>
  The state of the triggers is the list of the runs of \<open>run_content_scraping\<close> in
  progress, oldest first, each tagged with what started it.  \<open>manual_scrape\<close> creates a
  thread with target \<open>run_content_scraping\<close> and starts it, whatever is in progress.  The
  interval job that \<open>init_scheduler\<close> adds is started by the scheduler when the timer
  fires, unless as many instances of the job as the scheduler allows are running already;
  \<open>init_scheduler\<close> passes no such limit, so the limit is a parameter here.  A run in
  progress can end at any time.
\<close>

datatype trigger = Timer | Manual

definition manual_scrape :: "trigger list \<Rightarrow> trigger list" where
  "manual_scrape running = running @ [Manual]"

definition timer_fires :: "nat \<Rightarrow> trigger list \<Rightarrow> trigger list" where
  "timer_fires max_instances running =
     (if length (filter (\<lambda>t. t = Timer) running) < max_instances
      then running @ [Timer] else running)"

definition run_ends :: "nat \<Rightarrow> trigger list \<Rightarrow> trigger list" where
  "run_ends i running = take i running @ drop (Suc i) running"

inductive reachable :: "nat \<Rightarrow> trigger list \<Rightarrow> bool" for max_instances :: nat where
  start: "reachable max_instances []"
| manual: "reachable max_instances running \<Longrightarrow> reachable max_instances (manual_scrape running)"
| timer: "reachable max_instances running \<Longrightarrow>
            reachable max_instances (timer_fires max_instances running)"
| ends: "reachable max_instances running \<Longrightarrow> i < length running \<Longrightarrow>
           reachable max_instances (run_ends i running)"

section \<open>Concrete inputs\<close>

definition kw_python :: keyword where
  "kw_python = \<lparr>kw_id = 1, kw_term = ''python'', kw_active = True, kw_created_at = 0\<rparr>"

definition kw_rust :: keyword where
  "kw_rust = \<lparr>kw_id = 2, kw_term = ''Rust'', kw_active = True, kw_created_at = 0\<rparr>"

definition src_blog :: source where
  "src_blog = \<lparr>src_id = 1, src_name = ''Blog'', src_url = ''http://blog'',
                source_type = ''website'', src_active = True, last_scraped = None,
                src_created_at = 0\<rparr>"

definition src_feed :: source where
  "src_feed = \<lparr>src_id = 2, src_name = ''Feed'', src_url = ''http://feed'',
                source_type = ''rss'', src_active = True, last_scraped = None,
                src_created_at = 0\<rparr>"

text \<open>
  The page \<open><html><head><title> News </title></head><body><nav>python today</nav>
  <article>Hello</article></body></html>\<close>: the keyword is in the navigation bar, not in
  the title and not in the article element.
\<close>

definition page_blog :: soup where
  "page_blog = \<lparr>get_text = '' News python todayHello'',
                 find_title = Some '' News '',
                 select_one = (\<lambda>sel. if sel = ''article'' then Some ''Hello'' else None),
                 find_body = Some ''python todayHello'',
                 get_text_strip = ''Newspython todayHello''\<rparr>"

definition entry_a :: feed_entry where
  "entry_a = \<lparr>e_title = Some ''Python 4'', e_description = Some ''python news'',
                e_summary = Some ''python news'', e_link = Some ''http://feed/a'',
                e_author = None, e_published = None\<rparr>"

definition entry_b :: feed_entry where
  "entry_b = \<lparr>e_title = Some ''Cooking'', e_description = Some ''soup'',
                e_summary = Some ''soup'', e_link = Some ''http://feed/b'',
                e_author = None, e_published = None\<rparr>"

definition world0 :: world where
  "world0 = \<lparr>feed_entries = (\<lambda>u. if u = ''http://feed'' then Some [entry_a, entry_b] else None),
              fetch_page = (\<lambda>u. if u = ''http://blog'' then Some page_blog else None),
              parsedate = (\<lambda>s. None),
              utcnow = (\<lambda>i. 100 + i),
              storage_fault = (\<lambda>i. None)\<rparr>"

definition db0 :: store where
  "db0 = \<lparr>keyword_tbl = [kw_python, kw_rust], source_tbl = [src_blog, src_feed],
           articles = [], article_keywords = []\<rparr>"

text \<open>The store after a first run on \<open>db0\<close>.\<close>

definition db1 :: store where
  "db1 = snd (run_content_scraping world0 db0)"

text \<open>A feed of twelve entries; all but the third mention the keyword.\<close>

definition entry_of_link :: "string \<Rightarrow> feed_entry" where
  "entry_of_link l =
     \<lparr>e_title = Some (if l = ''c'' then ''Cooking'' else ''Python''), e_description = None,
      e_summary = None, e_link = Some l, e_author = None, e_published = None\<rparr>"

definition entries12 :: "feed_entry list" where
  "entries12 = map entry_of_link
     [''a'', ''b'', ''c'', ''d'', ''e'', ''f'', ''g'', ''h'', ''i'', ''j'', ''k'', ''l'']"

definition world9 :: world where
  "world9 = world0\<lparr>feed_entries := (\<lambda>u. if u = ''http://feed'' then Some entries12 else None)\<rparr>"

definition db9 :: store where
  "db9 = snd (run_sources world9 [kw_python, kw_rust] db0 [src_feed])"

text \<open>A page whose article element has 5001 characters.\<close>

definition page_long :: soup where
  "page_long = \<lparr>get_text = ''python '' @ replicate 5001 CHR ''x'',
                 find_title = None,
                 select_one = (\<lambda>sel. if sel = ''article'' then Some (replicate 5001 CHR ''x'') else None),
                 find_body = None,
                 get_text_strip = ''python'' @ replicate 5001 CHR ''x''\<rparr>"

definition world7 :: world where
  "world7 = world0\<lparr>fetch_page := (\<lambda>u. if u = ''http://blog'' then Some page_long else None)\<rparr>"

definition db7 :: store where
  "db7 = snd (run_sources world7 [kw_python, kw_rust] db0 [src_blog])"

text \<open>A feed entry whose description and summary have 4000 characters each, so that
  only their concatenation exceeds the cap.\<close>

definition entry_long :: feed_entry where
  "entry_long = \<lparr>e_title = Some ''Python'', e_description = Some (replicate 4000 CHR ''x''),
                   e_summary = Some (replicate 4000 CHR ''y''), e_link = Some ''http://feed/long'',
                   e_author = None, e_published = None\<rparr>"

definition world7f :: world where
  "world7f = world0\<lparr>feed_entries := (\<lambda>u. if u = ''http://feed'' then Some [entry_long] else None)\<rparr>"

definition db7f :: store where
  "db7f = snd (run_sources world7f [kw_python, kw_rust] db0 [src_feed])"

text \<open>The store after the feed source alone has been processed in \<open>world0\<close>.\<close>

definition db_feed :: store where
  "db_feed = snd (run_sources world0 [kw_python, kw_rust] db0 [src_feed])"

text \<open>A feed of two matching entries without a link.\<close>

definition entry_nolink :: "string \<Rightarrow> feed_entry" where
  "entry_nolink t =
     \<lparr>e_title = Some t, e_description = None, e_summary = None, e_link = None,
      e_author = None, e_published = None\<rparr>"

definition world10 :: world where
  "world10 = world0\<lparr>feed_entries :=
      (\<lambda>u. if u = ''http://feed'' then Some [entry_nolink ''Python A'', entry_nolink ''Python B'']
           else None)\<rparr>"

definition db10 :: store where
  "db10 = snd (run_sources world10 [kw_python, kw_rust] db0 [src_feed])"

definition db11 :: store where
  "db11 = snd (run_sources world10 [kw_python, kw_rust] db10 [src_feed])"

text \<open>The store after the website source alone has been processed in \<open>world0\<close>.\<close>

definition db_blog :: store where
  "db_blog = snd (run_sources world0 [kw_python, kw_rust] db0 [src_blog])"

text \<open>
  Worlds with failures: in \<open>world5\<close> the second database call of the website source's
  unit (the flush after the article was added) raises; in \<open>world6\<close> every fetch fails.
\<close>

definition world5 :: world where
  "world5 = world0\<lparr>storage_fault := (\<lambda>i. if i = 1 then Some 1 else None)\<rparr>"


section \<open>Properties of the string operations\<close>

lemma prefix_iff_take: "prefix xs ys \<longleftrightarrow> take (length xs) ys = xs"
  by (metis append_eq_conv_conj prefix_def append_take_drop_id)

lemma str_count_pos_iff: "0 < str_count s sub \<longleftrightarrow> sublist sub s"
proof (induction s sub rule: str_count.induct)
  case (1 s sub)
  show ?case
  proof (cases "sub = []")
    case True
    then show ?thesis by (simp add: str_count.simps)
  next
    case nonempty: False
    show ?thesis
    proof (cases "length s < length sub")
      case True
      then have "\<not> sublist sub s"
        using sublist_length_le by fastforce
      with True nonempty show ?thesis by (simp add: str_count.simps [of s sub])
    next
      case long: False
      show ?thesis
      proof (cases "take (length sub) s = sub")
        case True
        then have "prefix sub s" by (simp add: prefix_iff_take)
        then have "sublist sub s" by simp
        with True nonempty long show ?thesis by (simp add: str_count.simps [of s sub])
      next
        case False
        from nonempty long obtain x s' where s: "s = x # s'"
          by (cases s) auto
        from False have "\<not> prefix sub s" by (simp add: prefix_iff_take)
        then have "sublist sub s \<longleftrightarrow> sublist sub (tl s)"
          by (simp add: s sublist_Cons_right)
        moreover have "str_count s sub = str_count (tl s) sub"
          using False nonempty long by (simp add: str_count.simps [of s sub])
        ultimately show ?thesis
          using "1.IH"(2) [OF nonempty long False] by simp
      qed
    qed
  qed
qed

lemma str_count_zero_iff: "str_count s sub = 0 \<longleftrightarrow> \<not> sublist sub s"
  using str_count_pos_iff [of s sub] by auto

section \<open>Properties of the matcher\<close>

lemma check_keyword_matches_loop_eq:
  "check_keyword_matches_loop cl ks acc =
     acc @ map (mk_match cl) (filter (\<lambda>k. sublist (lower (kw_term k)) cl) ks)"
  by (induction ks arbitrary: acc) (simp_all add: mk_match_def)

lemma check_keyword_matches_eq:
  "check_keyword_matches content ks =
     map (mk_match (lower content)) (filter (\<lambda>k. sublist (lower (kw_term k)) (lower content)) ks)"
  by (simp add: check_keyword_matches_def check_keyword_matches_loop_eq)

lemma m_keyword_mk_match [simp]: "m_keyword (mk_match cl k) = k"
  by (simp add: mk_match_def)

lemma filter_eq_singleton:
  "distinct xs \<Longrightarrow> x \<in> set xs \<Longrightarrow> P x \<Longrightarrow> filter (\<lambda>y. y = x \<and> P y) xs = [x]"
  by (induction xs) (auto simp: filter_empty_conv)

lemma match_score_pos:
  assumes "m \<in> set (check_keyword_matches content ks)"
  shows "0 < m_score m"
proof -
  from assms obtain k where k: "sublist (lower (kw_term k)) (lower content)"
    and m: "m = mk_match (lower content) k"
    by (auto simp: check_keyword_matches_eq)
  from k have "0 < str_count (lower content) (lower (kw_term k))"
    by (simp add: str_count_pos_iff)
  then show ?thesis by (simp add: m mk_match_def)
qed

text \<open>
  C1.  For a keyword \<open>K\<close> of the (duplicate-free) keyword list and a text \<open>T\<close>, let \<open>c\<close> be the
  number of occurrences of the lower-cased term in the lower-cased text, as \<open>str.count\<close>
  counts them.  If \<open>c = 0\<close>, no element of the result of \<open>check_keyword_matches\<close> is for
  \<open>K\<close>; if \<open>c \<ge> 1\<close>, exactly one element is for \<open>K\<close>, and its score is \<open>min (c / 10) 1\<close>.
\<close>

theorem check_keyword_matches_score:
  assumes "distinct kws" and "K \<in> set kws"
  shows "(str_count (lower T) (lower (kw_term K)) = 0 \<longrightarrow>
            K \<notin> m_keyword ` set (check_keyword_matches T kws)) \<and>
         (1 \<le> str_count (lower T) (lower (kw_term K)) \<longrightarrow>
            filter (\<lambda>m. m_keyword m = K) (check_keyword_matches T kws) =
              [\<lparr>m_keyword = K,
                m_score = min (of_nat (str_count (lower T) (lower (kw_term K))) / 10) 1\<rparr>])"
proof (intro conjI impI)
  assume "str_count (lower T) (lower (kw_term K)) = 0"
  then have "\<not> sublist (lower (kw_term K)) (lower T)"
    by (simp add: str_count_zero_iff)
  then show "K \<notin> m_keyword ` set (check_keyword_matches T kws)"
    by (auto simp: check_keyword_matches_eq)
next
  assume "1 \<le> str_count (lower T) (lower (kw_term K))"
  then have occ: "sublist (lower (kw_term K)) (lower T)"
    using str_count_pos_iff [of "lower T" "lower (kw_term K)"] by simp
  have "filter (\<lambda>m. m_keyword m = K) (check_keyword_matches T kws) =
          map (mk_match (lower T))
            (filter (\<lambda>k. k = K \<and> sublist (lower (kw_term k)) (lower T)) kws)"
    by (simp add: check_keyword_matches_eq filter_map comp_def conj_commute)
  also have "\<dots> = [mk_match (lower T) K]"
    using assms occ by (simp add: filter_eq_singleton)
  finally show "filter (\<lambda>m. m_keyword m = K) (check_keyword_matches T kws) =
      [\<lparr>m_keyword = K,
        m_score = min (of_nat (str_count (lower T) (lower (kw_term K))) / 10) 1\<rparr>]"
    by (simp add: mk_match_def)
qed

lemma ev_count_python: "str_count (lower ''Python and PYTHON'') (lower (kw_term kw_python)) = 2"
  by (simp add: lower_def lower_char_def kw_python_def str_count.simps)

lemma ev_count_rust: "str_count (lower ''Python and PYTHON'') (lower (kw_term kw_rust)) = 0"
  by (simp add: lower_def lower_char_def kw_rust_def str_count.simps)

theorem check_keyword_matches_score_witness:
  "distinct [kw_python, kw_rust] \<and> kw_python \<in> set [kw_python, kw_rust] \<and>
   kw_rust \<in> set [kw_python, kw_rust] \<and>
   str_count (lower ''Python and PYTHON'') (lower (kw_term kw_python)) = 2 \<and>
   filter (\<lambda>m. m_keyword m = kw_python)
     (check_keyword_matches ''Python and PYTHON'' [kw_python, kw_rust]) =
     [\<lparr>m_keyword = kw_python, m_score = 1 / 5\<rparr>] \<and>
   str_count (lower ''Python and PYTHON'') (lower (kw_term kw_rust)) = 0 \<and>
   kw_rust \<notin> m_keyword ` set (check_keyword_matches ''Python and PYTHON'' [kw_python, kw_rust])"
proof -
  have d: "distinct [kw_python, kw_rust]"
    by (simp add: kw_python_def kw_rust_def)
  have i: "kw_python \<in> set [kw_python, kw_rust]" and j: "kw_rust \<in> set [kw_python, kw_rust]"
    by simp_all
  show ?thesis
    using check_keyword_matches_score [OF d i, of "''Python and PYTHON''"]
      check_keyword_matches_score [OF d j, of "''Python and PYTHON''"] d
    by (simp add: ev_count_python ev_count_rust)
qed

section \<open>Lists that only grow\<close>

lemma appended_refl: "appended P xs xs"
  by (simp add: appended_def)

lemma appended_trans: "appended P xs ys \<Longrightarrow> appended P ys zs \<Longrightarrow> appended P xs zs"
  by (auto simp: appended_def)

lemma appended_mono: "appended P xs ys \<Longrightarrow> (\<And>x. P x \<Longrightarrow> Q x) \<Longrightarrow> appended Q xs ys"
  by (auto simp: appended_def list_all_iff)

lemma appended_snoc: "P x \<Longrightarrow> appended P xs (xs @ [x])"
  by (simp add: appended_def)

lemma appended_append: "list_all P ys \<Longrightarrow> appended P xs (xs @ ys)"
  by (simp add: appended_def)

lemma appended_length: "appended P xs ys \<Longrightarrow> length xs \<le> length ys"
  by (auto simp: appended_def)

lemma appended_drop: "appended P xs ys \<Longrightarrow> list_all P (drop (length xs) ys)"
  by (auto simp: appended_def)

lemma appended_take: "appended P xs ys \<Longrightarrow> take (length xs) ys = xs"
  by (auto simp: appended_def)

lemma fresh_ext_refl: "fresh_ext xs xs"
  by (simp add: fresh_ext_def)

lemma fresh_ext_snoc: "art_url a \<notin> art_url ` set xs \<Longrightarrow> fresh_ext xs (xs @ [a])"
  by (simp add: fresh_ext_def)

lemma fresh_ext_trans:
  assumes "fresh_ext xs ys" and "fresh_ext ys zs"
  shows "fresh_ext xs zs"
proof -
  from assms(1) obtain n1 where ys: "ys = xs @ n1" and d1: "distinct (map art_url n1)"
    and f1: "list_all (\<lambda>a. art_url a \<notin> art_url ` set xs) n1"
    by (auto simp: fresh_ext_def)
  from assms(2) obtain n2 where zs: "zs = ys @ n2" and d2: "distinct (map art_url n2)"
    and f2: "list_all (\<lambda>a. art_url a \<notin> art_url ` set ys) n2"
    by (auto simp: fresh_ext_def)
  have "zs = xs @ (n1 @ n2)" by (simp add: ys zs)
  moreover have "art_url ` set n1 \<inter> art_url ` set n2 = {}"
  proof -
    have "\<And>a. a \<in> set n2 \<Longrightarrow> art_url a \<notin> art_url ` set n1"
      using f2 by (simp add: ys list_all_iff image_Un)
    then show ?thesis by (auto simp: image_iff) fastforce
  qed
  then have "distinct (map art_url (n1 @ n2))"
    using d1 d2 by simp
  moreover have "list_all (\<lambda>a. art_url a \<notin> art_url ` set xs) (n1 @ n2)"
    using f1 f2 by (auto simp: ys list_all_iff)
  ultimately show ?thesis unfolding fresh_ext_def by blast
qed

lemma fresh_ext_distinct:
  assumes "fresh_ext xs ys" and "distinct (map art_url xs)"
  shows "distinct (map art_url ys)"
proof -
  from assms(1) obtain new where ys: "ys = xs @ new" and d: "distinct (map art_url new)"
    and f: "list_all (\<lambda>a. art_url a \<notin> art_url ` set xs) new"
    by (auto simp: fresh_ext_def)
  have "\<And>a. a \<in> set new \<Longrightarrow> art_url a \<notin> art_url ` set xs"
    using f by (simp add: list_all_iff)
  then have "art_url ` set xs \<inter> art_url ` set new = {}"
    by (auto simp: image_iff) fastforce
  with d assms(2) show ?thesis by (simp add: ys)
qed

section \<open>Properties of the database session\<close>

lemma add_keyword_rows_articles [simp]:
  "articles (add_keyword_rows aid ms tx) = articles tx"
  by (induction ms arbitrary: tx) simp_all

lemma add_keyword_rows_source_tbl [simp]:
  "source_tbl (add_keyword_rows aid ms tx) = source_tbl tx"
  by (induction ms arbitrary: tx) simp_all

lemma add_keyword_rows_keyword_tbl [simp]:
  "keyword_tbl (add_keyword_rows aid ms tx) = keyword_tbl tx"
  by (induction ms arbitrary: tx) simp_all

lemma add_keyword_rows_rows:
  "\<exists>rows. article_keywords (add_keyword_rows aid ms tx) = article_keywords tx @ rows \<and>
     list_all2 (\<lambda>m r. ak_article_id r = aid \<and> ak_keyword_id r = kw_id (m_keyword m) \<and>
                       relevance_score r = m_score m) ms rows"
proof (induction ms arbitrary: tx)
  case Nil
  then show ?case by simp
next
  case (Cons m ms)
  let ?row = "\<lparr>ak_id = next_id (map ak_id (article_keywords tx)), ak_article_id = aid,
               ak_keyword_id = kw_id (m_keyword m), relevance_score = m_score m\<rparr>"
  let ?tx = "tx\<lparr>article_keywords := article_keywords tx @ [?row]\<rparr>"
  from Cons.IH [of ?tx] obtain rows where
    r: "article_keywords (add_keyword_rows aid ms ?tx) = article_keywords ?tx @ rows"
    and l: "list_all2 (\<lambda>m r. ak_article_id r = aid \<and> ak_keyword_id r = kw_id (m_keyword m) \<and>
                       relevance_score r = m_score m) ms rows"
    by blast
  have "article_keywords (add_keyword_rows aid (m # ms) tx) = article_keywords tx @ (?row # rows)"
    using r by simp
  moreover have "list_all2 (\<lambda>m r. ak_article_id r = aid \<and> ak_keyword_id r = kw_id (m_keyword m) \<and>
                       relevance_score r = m_score m) (m # ms) (?row # rows)"
    using l by simp
  ultimately show ?case by blast
qed

lemma add_keyword_rows_appended:
  "appended (\<lambda>r. \<exists>m\<in>set ms. ak_article_id r = aid \<and> ak_keyword_id r = kw_id (m_keyword m) \<and>
                   relevance_score r = m_score m)
     (article_keywords tx) (article_keywords (add_keyword_rows aid ms tx))"
proof -
  obtain rows where r: "article_keywords (add_keyword_rows aid ms tx) = article_keywords tx @ rows"
    and l: "list_all2 (\<lambda>m r. ak_article_id r = aid \<and> ak_keyword_id r = kw_id (m_keyword m) \<and>
                       relevance_score r = m_score m) ms rows"
    using add_keyword_rows_rows by blast
  have "list_all (\<lambda>r. \<exists>m\<in>set ms. ak_article_id r = aid \<and> ak_keyword_id r = kw_id (m_keyword m) \<and>
                   relevance_score r = m_score m) rows"
    unfolding list_all_iff
  proof
    fix r assume "r \<in> set rows"
    then obtain i where i: "i < length rows" and ri: "r = rows ! i"
      by (auto simp: in_set_conv_nth)
    from l i have "i < length ms" by (simp add: list_all2_lengthD)
    moreover from l i have "ak_article_id (rows ! i) = aid \<and>
        ak_keyword_id (rows ! i) = kw_id (m_keyword (ms ! i)) \<and>
        relevance_score (rows ! i) = m_score (ms ! i)"
      by (simp add: list_all2_conv_all_nth)
    ultimately show "\<exists>m\<in>set ms. ak_article_id r = aid \<and> ak_keyword_id r = kw_id (m_keyword m) \<and>
                   relevance_score r = m_score m"
      using ri nth_mem by blast
  qed
  with r show ?thesis by (simp add: appended_def)
qed

lemma storage_call_None [simp]: "storage_call None = Inr b \<longleftrightarrow> b = None"
  by auto

lemma persist_article_cases:
  assumes "persist_article now src d (tx, b) = Inr (tx', b')"
  shows "(d_url d \<in> art_url ` set (articles tx) \<and> tx' = tx) \<or>
         (d_url d \<notin> art_url ` set (articles tx) \<and>
          tx' = add_keyword_rows (next_id (map art_id (articles tx))) (d_matches d)
                  (tx\<lparr>articles := articles tx @
                        [new_article (next_id (map art_id (articles tx))) now src d]\<rparr>))"
  using assms
  by (auto simp: persist_article_def Let_def split: sum.splits if_splits)

lemma persist_article_no_fault:
  "persist_article now src d (tx, None) =
     Inr (if d_url d \<in> art_url ` set (articles tx) then tx
          else add_keyword_rows (next_id (map art_id (articles tx))) (d_matches d)
                 (tx\<lparr>articles := articles tx @
                       [new_article (next_id (map art_id (articles tx))) now src d]\<rparr>), None)"
  by (simp add: persist_article_def Let_def)

lemma persist_article_tables:
  assumes "persist_article now src d (tx, b) = Inr (tx', b')"
  shows "keyword_tbl tx' = keyword_tbl tx \<and> source_tbl tx' = source_tbl tx"
  using persist_article_cases [OF assms] by auto

lemma persist_article_fresh:
  assumes "persist_article now src d (tx, b) = Inr (tx', b')"
  shows "fresh_ext (articles tx) (articles tx')"
proof -
  from persist_article_cases [OF assms] show ?thesis
  proof (elim disjE conjE)
    assume "tx' = tx"
    then show ?thesis by (simp add: fresh_ext_refl)
  next
    assume "d_url d \<notin> art_url ` set (articles tx)"
      and "tx' = add_keyword_rows (next_id (map art_id (articles tx))) (d_matches d)
                  (tx\<lparr>articles := articles tx @
                        [new_article (next_id (map art_id (articles tx))) now src d]\<rparr>)"
    then show ?thesis by (simp add: fresh_ext_snoc new_article_def)
  qed
qed

lemma persist_article_origin:
  assumes "persist_article now src d (tx, b) = Inr (tx', b')"
  shows "appended (\<lambda>a. \<exists>aid. a = new_article aid now src d) (articles tx) (articles tx')"
proof -
  from persist_article_cases [OF assms] show ?thesis
  proof (elim disjE conjE)
    assume "tx' = tx"
    then show ?thesis by (simp add: appended_refl)
  next
    assume tx': "tx' = add_keyword_rows (next_id (map art_id (articles tx))) (d_matches d)
                  (tx\<lparr>articles := articles tx @
                        [new_article (next_id (map art_id (articles tx))) now src d]\<rparr>)"
    have "appended (\<lambda>a. \<exists>aid. a = new_article aid now src d) (articles tx)
            (articles tx @ [new_article (next_id (map art_id (articles tx))) now src d])"
      by (rule appended_snoc) blast
    then show ?thesis by (simp add: tx')
  qed
qed

lemma persist_article_length:
  assumes "persist_article now src d (tx, b) = Inr (tx', b')"
  shows "length (articles tx') \<le> Suc (length (articles tx))"
  using persist_article_cases [OF assms] by auto

lemma persist_article_rows:
  assumes "persist_article now src d (tx, b) = Inr (tx', b')"
  shows "appended (\<lambda>r. \<exists>m\<in>set (d_matches d). ak_keyword_id r = kw_id (m_keyword m) \<and>
                        relevance_score r = m_score m)
           (article_keywords tx) (article_keywords tx')"
proof -
  from persist_article_cases [OF assms] show ?thesis
  proof
    assume "d_url d \<in> art_url ` set (articles tx) \<and> tx' = tx"
    then show ?thesis by (simp add: appended_refl)
  next
    assume a: "d_url d \<notin> art_url ` set (articles tx) \<and>
          tx' = add_keyword_rows (next_id (map art_id (articles tx))) (d_matches d)
                  (tx\<lparr>articles := articles tx @
                        [new_article (next_id (map art_id (articles tx))) now src d]\<rparr>)"
    let ?tx = "tx\<lparr>articles := articles tx @
                        [new_article (next_id (map art_id (articles tx))) now src d]\<rparr>"
    have "appended (\<lambda>r. \<exists>m\<in>set (d_matches d).
              ak_article_id r = next_id (map art_id (articles tx)) \<and>
              ak_keyword_id r = kw_id (m_keyword m) \<and> relevance_score r = m_score m)
           (article_keywords ?tx) (article_keywords tx')"
      using a add_keyword_rows_appended [of "d_matches d" _ ?tx] by simp
    then have "appended (\<lambda>r. \<exists>m\<in>set (d_matches d).
              ak_article_id r = next_id (map art_id (articles tx)) \<and>
              ak_keyword_id r = kw_id (m_keyword m) \<and> relevance_score r = m_score m)
           (article_keywords tx) (article_keywords tx')"
      by simp
    then show ?thesis
      by (rule appended_mono) blast
  qed
qed

lemma persist_articles_tables:
  "persist_articles now src ds (tx, b) = Inr (tx', b') \<Longrightarrow>
     keyword_tbl tx' = keyword_tbl tx \<and> source_tbl tx' = source_tbl tx"
proof (induction ds arbitrary: tx b)
  case Nil
  then show ?case by simp
next
  case (Cons d ds)
  then obtain tx1 b1 where 1: "persist_article now src d (tx, b) = Inr (tx1, b1)"
    and 2: "persist_articles now src ds (tx1, b1) = Inr (tx', b')"
    by (auto split: sum.splits)
  from persist_article_tables [OF 1] Cons.IH [OF 2] show ?case by simp
qed

lemma persist_articles_fresh:
  "persist_articles now src ds (tx, b) = Inr (tx', b') \<Longrightarrow>
     fresh_ext (articles tx) (articles tx')"
proof (induction ds arbitrary: tx b)
  case Nil
  then show ?case by (simp add: fresh_ext_refl)
next
  case (Cons d ds)
  then obtain tx1 b1 where 1: "persist_article now src d (tx, b) = Inr (tx1, b1)"
    and 2: "persist_articles now src ds (tx1, b1) = Inr (tx', b')"
    by (auto split: sum.splits)
  from persist_article_fresh [OF 1] Cons.IH [OF 2] show ?case
    by (rule fresh_ext_trans)
qed

lemma persist_articles_origin:
  "persist_articles now src ds (tx, b) = Inr (tx', b') \<Longrightarrow>
     appended (\<lambda>a. \<exists>d\<in>set ds. \<exists>aid. a = new_article aid now src d) (articles tx) (articles tx')"
proof (induction ds arbitrary: tx b)
  case Nil
  then show ?case by (simp add: appended_refl)
next
  case (Cons d ds)
  then obtain tx1 b1 where 1: "persist_article now src d (tx, b) = Inr (tx1, b1)"
    and 2: "persist_articles now src ds (tx1, b1) = Inr (tx', b')"
    by (auto split: sum.splits)
  have "appended (\<lambda>a. \<exists>d\<in>set (d # ds). \<exists>aid. a = new_article aid now src d)
          (articles tx) (articles tx1)"
    by (rule appended_mono [OF persist_article_origin [OF 1]]) auto
  moreover have "appended (\<lambda>a. \<exists>d\<in>set (d # ds). \<exists>aid. a = new_article aid now src d)
          (articles tx1) (articles tx')"
    by (rule appended_mono [OF Cons.IH [OF 2]]) auto
  ultimately show ?case by (rule appended_trans)
qed

lemma persist_articles_length:
  "persist_articles now src ds (tx, b) = Inr (tx', b') \<Longrightarrow>
     length (articles tx') \<le> length (articles tx) + length ds"
proof (induction ds arbitrary: tx b)
  case Nil
  then show ?case by simp
next
  case (Cons d ds)
  then obtain tx1 b1 where 1: "persist_article now src d (tx, b) = Inr (tx1, b1)"
    and 2: "persist_articles now src ds (tx1, b1) = Inr (tx', b')"
    by (auto split: sum.splits)
  from persist_article_length [OF 1] Cons.IH [OF 2] show ?case by simp
qed

lemma persist_articles_rows:
  "persist_articles now src ds (tx, b) = Inr (tx', b') \<Longrightarrow>
     appended (\<lambda>r. \<exists>d\<in>set ds. \<exists>m\<in>set (d_matches d).
                 ak_keyword_id r = kw_id (m_keyword m) \<and> relevance_score r = m_score m)
       (article_keywords tx) (article_keywords tx')"
proof (induction ds arbitrary: tx b)
  case Nil
  then show ?case by (simp add: appended_refl)
next
  case (Cons d ds)
  then obtain tx1 b1 where 1: "persist_article now src d (tx, b) = Inr (tx1, b1)"
    and 2: "persist_articles now src ds (tx1, b1) = Inr (tx', b')"
    by (auto split: sum.splits)
  have "appended (\<lambda>r. \<exists>d\<in>set (d # ds). \<exists>m\<in>set (d_matches d).
                 ak_keyword_id r = kw_id (m_keyword m) \<and> relevance_score r = m_score m)
          (article_keywords tx) (article_keywords tx1)"
    by (rule appended_mono [OF persist_article_rows [OF 1]]) auto
  moreover have "appended (\<lambda>r. \<exists>d\<in>set (d # ds). \<exists>m\<in>set (d_matches d).
                 ak_keyword_id r = kw_id (m_keyword m) \<and> relevance_score r = m_score m)
          (article_keywords tx1) (article_keywords tx')"
    by (rule appended_mono [OF Cons.IH [OF 2]]) auto
  ultimately show ?case by (rule appended_trans)
qed

section \<open>Properties of one source's unit of work\<close>

lemma set_last_scraped_simps [simp]:
  "articles (set_last_scraped sid now tx) = articles tx"
  "article_keywords (set_last_scraped sid now tx) = article_keywords tx"
  "keyword_tbl (set_last_scraped sid now tx) = keyword_tbl tx"
  by (simp_all add: set_last_scraped_def)

lemma process_source_Inr:
  assumes "process_source w kws db src = Inr db'"
  shows "\<exists>tx b. persist_articles (utcnow w (src_id src)) src (scraped w kws src)
                  (db, storage_fault w (src_id src)) = Inr (tx, b) \<and>
               db' = set_last_scraped (src_id src) (utcnow w (src_id src)) tx"
  using assms
  by (auto simp: process_source_def scraped_def Let_def split: sum.splits option.splits if_splits)

lemma process_source_tables:
  assumes "process_source w kws db src = Inr db'"
  shows "keyword_tbl db' = keyword_tbl db"
proof -
  from process_source_Inr [OF assms] obtain tx b where
    p: "persist_articles (utcnow w (src_id src)) src (scraped w kws src)
          (db, storage_fault w (src_id src)) = Inr (tx, b)"
    and db': "db' = set_last_scraped (src_id src) (utcnow w (src_id src)) tx"
    by blast
  from persist_articles_tables [OF p] show ?thesis by (simp add: db')
qed

lemma process_source_fresh:
  assumes "process_source w kws db src = Inr db'"
  shows "fresh_ext (articles db) (articles db')"
proof -
  from process_source_Inr [OF assms] obtain tx b where
    p: "persist_articles (utcnow w (src_id src)) src (scraped w kws src)
          (db, storage_fault w (src_id src)) = Inr (tx, b)"
    and db': "db' = set_last_scraped (src_id src) (utcnow w (src_id src)) tx"
    by blast
  from persist_articles_fresh [OF p] show ?thesis by (simp add: db')
qed

lemma process_source_rows:
  assumes "process_source w kws db src = Inr db'"
  shows "appended (\<lambda>r. \<exists>d\<in>set (scraped w kws src). \<exists>m\<in>set (d_matches d).
                 ak_keyword_id r = kw_id (m_keyword m) \<and> relevance_score r = m_score m)
           (article_keywords db) (article_keywords db')"
proof -
  from process_source_Inr [OF assms] obtain tx b where
    p: "persist_articles (utcnow w (src_id src)) src (scraped w kws src)
          (db, storage_fault w (src_id src)) = Inr (tx, b)"
    and db': "db' = set_last_scraped (src_id src) (utcnow w (src_id src)) tx"
    by blast
  from persist_articles_rows [OF p] show ?thesis by (simp add: db')
qed

lemma process_source_origin:
  assumes "process_source w kws db src = Inr db'"
  shows "appended (\<lambda>a. \<exists>d\<in>set (scraped w kws src). \<exists>aid.
                     a = new_article aid (utcnow w (src_id src)) src d)
           (articles db) (articles db')"
proof -
  from process_source_Inr [OF assms] obtain tx b where
    p: "persist_articles (utcnow w (src_id src)) src (scraped w kws src)
          (db, storage_fault w (src_id src)) = Inr (tx, b)"
    and db': "db' = set_last_scraped (src_id src) (utcnow w (src_id src)) tx"
    by blast
  from persist_articles_origin [OF p] show ?thesis by (simp add: db')
qed

lemma process_source_length:
  assumes "process_source w kws db src = Inr db'"
  shows "length (articles db') \<le> length (articles db) + length (scraped w kws src)"
proof -
  from process_source_Inr [OF assms] obtain tx b where
    p: "persist_articles (utcnow w (src_id src)) src (scraped w kws src)
          (db, storage_fault w (src_id src)) = Inr (tx, b)"
    and db': "db' = set_last_scraped (src_id src) (utcnow w (src_id src)) tx"
    by blast
  from persist_articles_length [OF p] show ?thesis by (simp add: db')
qed

section \<open>Properties of the scrapers\<close>

lemma scrape_rss_loop_eq:
  "scrape_rss_loop w kws es acc =
     acc @ map (entry_data w kws) (filter (\<lambda>e. entry_matches kws e \<noteq> []) es)"
  by (induction es arbitrary: acc) (simp_all add: entry_data_def entry_matches_def Let_def)

lemma scrape_rss_eq:
  "scrape_rss w url kws =
     (case feed_entries w url of
        None \<Rightarrow> []
      | Some es \<Rightarrow> map (entry_data w kws) (filter (\<lambda>e. entry_matches kws e \<noteq> []) (take 10 es)))"
  by (simp add: scrape_rss_def scrape_rss_loop_eq split: option.splits)

lemma scrape_website_Some:
  assumes "scrape_website w url kws = Some d"
  shows "\<exists>sp. fetch_page w url = Some sp \<and> check_keyword_matches (get_text sp) kws \<noteq> [] \<and>
           d = \<lparr>d_title = strip (get_or (find_title sp) url),
                d_content = take 5000 (extract_article_content sp),
                d_url = url, d_author = None, d_published_date = None,
                d_matches = check_keyword_matches (get_text sp) kws\<rparr>"
  using assms
  by (auto simp: scrape_website_def Let_def get_or_def split: option.splits if_splits)

lemma scraped_matches:
  assumes "d \<in> set (scraped w kws src)"
  shows "\<exists>text. d_matches d = check_keyword_matches text kws \<and> d_matches d \<noteq> []"
proof (cases "source_type src = ''rss''")
  case True
  with assms obtain e where "d = entry_data w kws e" and "entry_matches kws e \<noteq> []"
    by (auto simp: scraped_def scrape_rss_eq split: option.splits)
  then show ?thesis
    by (auto simp: entry_data_def entry_matches_def)
next
  case False
  with assms have "scrape_website w (src_url src) kws = Some d"
    by (auto simp: scraped_def split: option.splits)
  from scrape_website_Some [OF this] show ?thesis by auto
qed

section \<open>Properties of a run\<close>

lemma run_sources_fresh:
  "fresh_ext (articles db) (articles (snd (run_sources w kws db srcs)))"
proof (induction srcs arbitrary: db)
  case Nil
  show ?case by (simp add: fresh_ext_refl)
next
  case (Cons src srcs)
  show ?case
  proof (cases "process_source w kws db src")
    case (Inl e)
    then show ?thesis by (simp add: fresh_ext_refl appended_refl)
  next
    case (Inr db1)
    from process_source_fresh [OF Inr] Cons.IH [of db1]
    have "fresh_ext (articles db) (articles (snd (run_sources w kws db1 srcs)))"
      by (rule fresh_ext_trans)
    with Inr show ?thesis by simp
  qed
qed

lemma run_sources_rows:
  "appended (\<lambda>r. 0 < relevance_score r)
     (article_keywords db) (article_keywords (snd (run_sources w kws db srcs)))"
proof (induction srcs arbitrary: db)
  case Nil
  show ?case by (simp add: appended_refl)
next
  case (Cons src srcs)
  show ?case
  proof (cases "process_source w kws db src")
    case (Inl e)
    then show ?thesis by (simp add: fresh_ext_refl appended_refl)
  next
    case (Inr db1)
    have "appended (\<lambda>r. 0 < relevance_score r) (article_keywords db) (article_keywords db1)"
    proof (rule appended_mono [OF process_source_rows [OF Inr]])
      fix r
      assume "\<exists>d\<in>set (scraped w kws src). \<exists>m\<in>set (d_matches d).
                 ak_keyword_id r = kw_id (m_keyword m) \<and> relevance_score r = m_score m"
      then obtain d m where d: "d \<in> set (scraped w kws src)" and m: "m \<in> set (d_matches d)"
        and r: "relevance_score r = m_score m"
        by blast
      from scraped_matches [OF d] obtain t where "d_matches d = check_keyword_matches t kws"
        by blast
      with m have "0 < m_score m" by (simp add: match_score_pos)
      with r show "0 < relevance_score r" by simp
    qed
    from this Cons.IH [of db1]
    have "appended (\<lambda>r. 0 < relevance_score r)
            (article_keywords db) (article_keywords (snd (run_sources w kws db1 srcs)))"
      by (rule appended_trans)
    with Inr show ?thesis by simp
  qed
qed

section \<open>A unit of work either fails or is complete\<close>

lemma persist_article_Inr_eq:
  assumes "persist_article now src d (tx, b) = Inr (tx', b')"
  shows "tx' = insert_unit now src d tx"
  using persist_article_cases [OF assms] by (auto simp: insert_unit_def)

lemma persist_articles_Inr_eq:
  "persist_articles now src ds (tx, b) = Inr (tx', b') \<Longrightarrow>
     tx' = fold (insert_unit now src) ds tx"
proof (induction ds arbitrary: tx b)
  case Nil
  then show ?case by simp
next
  case (Cons d ds)
  then obtain tx1 b1 where 1: "persist_article now src d (tx, b) = Inr (tx1, b1)"
    and 2: "persist_articles now src ds (tx1, b1) = Inr (tx', b')"
    by (auto split: sum.splits)
  from persist_article_Inr_eq [OF 1] Cons.IH [OF 2] show ?case by simp
qed

lemma persist_articles_no_fault:
  "persist_articles now src ds (tx, None) = Inr (fold (insert_unit now src) ds tx, None)"
  by (induction ds arbitrary: tx) (simp_all add: persist_article_no_fault insert_unit_def)

lemma process_source_Inr_eq:
  assumes "process_source w kws db src = Inr db'"
  shows "db' = unit_of_work w kws db src"
proof -
  from process_source_Inr [OF assms] obtain tx b where
    p: "persist_articles (utcnow w (src_id src)) src (scraped w kws src)
          (db, storage_fault w (src_id src)) = Inr (tx, b)"
    and db': "db' = set_last_scraped (src_id src) (utcnow w (src_id src)) tx"
    by blast
  from persist_articles_Inr_eq [OF p] show ?thesis
    by (simp add: db' unit_of_work_def)
qed

lemma process_source_persist:
  "process_source w kws db src =
     (case persist_articles (utcnow w (src_id src)) src (scraped w kws src)
             (db, storage_fault w (src_id src)) of
        Inl e \<Rightarrow> Inl e
      | Inr (tx, budget) \<Rightarrow>
          (case storage_call budget of
             Inl e \<Rightarrow> Inl e
           | Inr budget1 \<Rightarrow> Inr (set_last_scraped (src_id src) (utcnow w (src_id src)) tx)))"
  by (simp add: process_source_def scraped_def Let_def split: option.splits sum.splits)

lemma process_source_no_fault:
  assumes "storage_fault w (src_id src) = None"
  shows "process_source w kws db src = Inr (unit_of_work w kws db src)"
  by (simp add: process_source_persist assms persist_articles_no_fault unit_of_work_def)

lemma persist_articles_first_call_fails:
  "ds \<noteq> [] \<Longrightarrow> persist_articles now src ds (tx, Some 0) = Inl StorageError"
  by (cases ds) (simp_all add: persist_article_def)

lemma process_source_first_call_fails:
  assumes "storage_fault w (src_id src) = Some 0"
  shows "process_source w kws db src = Inl StorageError"
proof (cases "scraped w kws src = []")
  case True
  then show ?thesis by (simp add: process_source_persist assms)
next
  case False
  then show ?thesis
    by (simp add: process_source_persist assms persist_articles_first_call_fails)
qed






lemma insert_unit_complete:
  "insert_unit now src d tx = tx \<or>
   (\<exists>a rows. articles (insert_unit now src d tx) = articles tx @ [a] \<and>
      article_keywords (insert_unit now src d tx) = article_keywords tx @ rows \<and>
      a = new_article (art_id a) now src d \<and> rows_for a (d_matches d) rows)"
proof (cases "d_url d \<in> art_url ` set (articles tx)")
  case True
  then show ?thesis by (simp add: insert_unit_def)
next
  case False
  let ?aid = "next_id (map art_id (articles tx))"
  let ?a = "new_article ?aid now src d"
  let ?tx = "tx\<lparr>articles := articles tx @ [?a]\<rparr>"
  from add_keyword_rows_rows [of ?aid "d_matches d" ?tx] obtain rows where
    r: "article_keywords (add_keyword_rows ?aid (d_matches d) ?tx) = article_keywords ?tx @ rows"
    and l: "list_all2 (\<lambda>m r. ak_article_id r = ?aid \<and> ak_keyword_id r = kw_id (m_keyword m) \<and>
                       relevance_score r = m_score m) (d_matches d) rows"
    by blast
  have id: "art_id ?a = ?aid" by (simp add: new_article_def)
  have 1: "articles (insert_unit now src d tx) = articles tx @ [?a]"
    using False by (simp add: insert_unit_def)
  have 2: "article_keywords (insert_unit now src d tx) = article_keywords tx @ rows"
    using False r by (simp add: insert_unit_def)
  have 3: "?a = new_article (art_id ?a) now src d" by (simp only: id)
  have 4: "rows_for ?a (d_matches d) rows"
    using l by (simp only: rows_for_def id)
  have "\<exists>a rows. articles (insert_unit now src d tx) = articles tx @ [a] \<and>
      article_keywords (insert_unit now src d tx) = article_keywords tx @ rows \<and>
      a = new_article (art_id a) now src d \<and> rows_for a (d_matches d) rows"
    by (rule exI [of _ ?a], rule exI [of _ rows]) (intro conjI 1 2 3 4)
  then show ?thesis by (rule disjI2)
qed

lemma fold_insert_unit_complete:
  "\<exists>units. articles (fold (insert_unit now src) ds tx) = articles tx @ map fst units \<and>
     article_keywords (fold (insert_unit now src) ds tx) =
       article_keywords tx @ concat (map snd units) \<and>
     list_all (\<lambda>(a, rows). \<exists>d\<in>set ds. a = new_article (art_id a) now src d \<and>
                 rows_for a (d_matches d) rows) units"
proof (induction ds arbitrary: tx)
  case Nil
  show ?case by (rule exI [of _ "[]"]) simp
next
  case (Cons d ds)
  let ?tx = "insert_unit now src d tx"
  let ?P = "\<lambda>(a, rows). \<exists>d'\<in>set (d # ds). a = new_article (art_id a) now src d' \<and>
                 rows_for a (d_matches d') rows"
  from Cons.IH [of ?tx] obtain units where
    a: "articles (fold (insert_unit now src) ds ?tx) = articles ?tx @ map fst units"
    and k: "article_keywords (fold (insert_unit now src) ds ?tx) =
              article_keywords ?tx @ concat (map snd units)"
    and u: "list_all (\<lambda>(a, rows). \<exists>d\<in>set ds. a = new_article (art_id a) now src d \<and>
                 rows_for a (d_matches d) rows) units"
    by blast
  have u': "list_all ?P units"
    unfolding list_all_iff
  proof
    fix x assume x: "x \<in> set units"
    obtain a0 r0 where x0: "x = (a0, r0)" by (cases x)
    from u x x0 obtain d0 where "d0 \<in> set ds" and "a0 = new_article (art_id a0) now src d0"
      and "rows_for a0 (d_matches d0) r0"
      unfolding list_all_iff by fastforce
    then have "\<exists>d'\<in>set (d # ds). a0 = new_article (art_id a0) now src d' \<and>
                 rows_for a0 (d_matches d') r0"
      by (intro bexI [of _ d0]) simp_all
    then show "?P x" by (simp only: x0 prod.case)
  qed
  from insert_unit_complete [of now src d tx] show ?case
  proof
    assume same: "?tx = tx"
    have "articles (fold (insert_unit now src) (d # ds) tx) = articles tx @ map fst units \<and>
        article_keywords (fold (insert_unit now src) (d # ds) tx) =
          article_keywords tx @ concat (map snd units) \<and> list_all ?P units"
      using a k u' by (simp add: same)
    then show ?thesis by (rule exI [of _ units])
  next
    assume "\<exists>a rows. articles ?tx = articles tx @ [a] \<and>
      article_keywords ?tx = article_keywords tx @ rows \<and>
      a = new_article (art_id a) now src d \<and> rows_for a (d_matches d) rows"
    then obtain a0 rows0 where a0: "articles ?tx = articles tx @ [a0]"
      and k0: "article_keywords ?tx = article_keywords tx @ rows0"
      and n0: "a0 = new_article (art_id a0) now src d" and r0: "rows_for a0 (d_matches d) rows0"
      by blast
    let ?units = "(a0, rows0) # units"
    have 1: "articles (fold (insert_unit now src) (d # ds) tx) = articles tx @ map fst ?units"
      using a a0 by simp
    have 2: "article_keywords (fold (insert_unit now src) (d # ds) tx) =
        article_keywords tx @ concat (map snd ?units)"
      using k k0 by simp
    have "\<exists>d'\<in>set (d # ds). a0 = new_article (art_id a0) now src d' \<and>
                 rows_for a0 (d_matches d') rows0"
    proof (rule bexI [of _ d])
      show "a0 = new_article (art_id a0) now src d \<and> rows_for a0 (d_matches d) rows0"
        by (rule conjI [OF n0 r0])
      show "d \<in> set (d # ds)" by simp
    qed
    then have p0: "?P (a0, rows0)" by (simp only: prod.case)
    have 3: "list_all ?P ?units"
      unfolding list_all_iff
    proof
      fix x assume "x \<in> set ?units"
      then have "x = (a0, rows0) \<or> x \<in> set units" by simp
      then show "?P x"
      proof
        assume "x = (a0, rows0)"
        with p0 show ?thesis by (simp only:)
      next
        assume "x \<in> set units"
        with u' show ?thesis unfolding list_all_iff by (rule bspec)
      qed
    qed
    have "articles (fold (insert_unit now src) (d # ds) tx) = articles tx @ map fst ?units \<and>
        article_keywords (fold (insert_unit now src) (d # ds) tx) =
          article_keywords tx @ concat (map snd ?units) \<and> list_all ?P ?units"
      by (intro conjI 1 2 3)
    then show ?thesis by (rule exI [of _ ?units])
  qed
qed

text \<open>
  C2.  A run only appends to the article table, and every article it appends has a URL
  that no article of the table had at the start of the run and that no other appended
  article has.  So a second run, whatever the feeds and pages give it, inserts no article
  for a URL the first run (or any earlier one) left in the table, and a table without two
  rows of the same URL stays so.
\<close>

theorem run_content_scraping_dedup:
  "\<exists>new. articles (snd (run_content_scraping w db)) = articles db @ new \<and>
         distinct (map art_url new) \<and>
         (\<forall>a\<in>set new. art_url a \<notin> art_url ` set (articles db)) \<and>
         (distinct (map art_url (articles db)) \<longrightarrow>
            distinct (map art_url (articles (snd (run_content_scraping w db)))))"
proof -
  have f: "fresh_ext (articles db) (articles (snd (run_content_scraping w db)))"
    by (simp add: run_content_scraping_def run_sources_fresh)
  then obtain new where "articles (snd (run_content_scraping w db)) = articles db @ new"
    and "distinct (map art_url new)"
    and "list_all (\<lambda>a. art_url a \<notin> art_url ` set (articles db)) new"
    by (auto simp: fresh_ext_def)
  moreover have "distinct (map art_url (articles db)) \<longrightarrow>
            distinct (map art_url (articles (snd (run_content_scraping w db))))"
    using fresh_ext_distinct [OF f] by blast
  ultimately show ?thesis by (auto simp: list_all_iff)
qed

lemma ev_db1_articles:
  "articles db1 =
      [\<lparr>art_id = 1, art_title = ''News'', art_content = ''Hello'',
          art_summary = None, art_url = ''http://blog'', art_author = None,
          art_published_date = None, art_scraped_date = 101, art_source_id = 1\<rparr>,
       \<lparr>art_id = 2, art_title = ''Python 4'', art_content = ''python news python news'',
          art_summary = None, art_url = ''http://feed/a'', art_author = Some [],
          art_published_date = None, art_scraped_date = 102, art_source_id = 2\<rparr>]"
  by code_simp

lemma ev_db1_rows:
  "article_keywords db1 =
      [\<lparr>ak_id = 1, ak_article_id = 1, ak_keyword_id = 1, relevance_score = 1 / 10\<rparr>,
       \<lparr>ak_id = 2, ak_article_id = 2, ak_keyword_id = 1, relevance_score = 3 / 10\<rparr>]"
  by code_simp

lemma ev_second_run: "articles (snd (run_content_scraping world0 db1)) = articles db1"
  by code_simp

theorem run_content_scraping_dedup_witness:
  "distinct (map art_url (articles db0)) \<and>
   length (articles (snd (run_content_scraping world0 db0))) = length (articles db0) + 2 \<and>
   distinct (map art_url (articles (snd (run_content_scraping world0 db0)))) \<and>
   distinct (map art_url (articles db1)) \<and>
   articles (snd (run_content_scraping world0 db1)) = articles db1 \<and>
   distinct (map art_url (articles (snd (run_content_scraping world0 db1))))"
proof -
  have d0: "distinct (map art_url (articles db0))"
    by (simp add: db0_def)
  have l0: "length (articles (snd (run_content_scraping world0 db0))) = length (articles db0) + 2"
    using ev_db1_articles by (simp add: db1_def db0_def)
  have d1: "distinct (map art_url (articles db1))"
    by (simp add: ev_db1_articles)
  show ?thesis
    using run_content_scraping_dedup [of world0 db0] run_content_scraping_dedup [of world0 db1]
      d0 l0 d1
    by (auto simp: ev_second_run)
qed

text \<open>
  C3, as amended.  In the website path the keyword matching is run over the text of the
  whole page.  When the source's unit of work commits: if the fetch failed, or the page
  text has no keyword match, no article and no association row is added; and if an article
  was added, the page was fetched, its text has at least one keyword match, and the one
  added article carries the stripped title and the capped extracted body.
\<close>

theorem website_gate_is_page_text:
  assumes "source_type src \<noteq> ''rss''" and "process_source w kws db src = Inr db'"
  shows "(fetch_page w (src_url src) = None \<longrightarrow>
            articles db' = articles db \<and> article_keywords db' = article_keywords db) \<and>
         (\<forall>sp. fetch_page w (src_url src) = Some sp \<and> check_keyword_matches (get_text sp) kws = [] \<longrightarrow>
            articles db' = articles db \<and> article_keywords db' = article_keywords db) \<and>
         (articles db' \<noteq> articles db \<longrightarrow>
            (\<exists>sp aid. fetch_page w (src_url src) = Some sp \<and>
               check_keyword_matches (get_text sp) kws \<noteq> [] \<and>
               articles db' = articles db @
                 [new_article aid (utcnow w (src_id src)) src
                    \<lparr>d_title = strip (get_or (find_title sp) (src_url src)),
                     d_content = take 5000 (extract_article_content sp),
                     d_url = src_url src, d_author = None, d_published_date = None,
                     d_matches = check_keyword_matches (get_text sp) kws\<rparr>]))"
proof -
  have db': "db' = unit_of_work w kws db src"
    by (rule process_source_Inr_eq [OF assms(2)])
  have none: "scrape_website w (src_url src) kws = None \<Longrightarrow>
      articles db' = articles db \<and> article_keywords db' = article_keywords db"
    using assms(1) by (simp add: db' unit_of_work_def scraped_def)
  have c1: "fetch_page w (src_url src) = None \<longrightarrow>
            articles db' = articles db \<and> article_keywords db' = article_keywords db"
  proof
    assume "fetch_page w (src_url src) = None"
    then have "scrape_website w (src_url src) kws = None"
      by (simp add: scrape_website_def)
    then show "articles db' = articles db \<and> article_keywords db' = article_keywords db"
      by (rule none)
  qed
  have c2: "\<forall>sp. fetch_page w (src_url src) = Some sp \<and>
              check_keyword_matches (get_text sp) kws = [] \<longrightarrow>
            articles db' = articles db \<and> article_keywords db' = article_keywords db"
  proof (intro allI impI)
    fix sp
    assume "fetch_page w (src_url src) = Some sp \<and> check_keyword_matches (get_text sp) kws = []"
    then have "scrape_website w (src_url src) kws = None"
      by (simp add: scrape_website_def Let_def)
    then show "articles db' = articles db \<and> article_keywords db' = article_keywords db"
      by (rule none)
  qed
  have c3: "articles db' \<noteq> articles db \<longrightarrow>
            (\<exists>sp aid. fetch_page w (src_url src) = Some sp \<and>
               check_keyword_matches (get_text sp) kws \<noteq> [] \<and>
               articles db' = articles db @
                 [new_article aid (utcnow w (src_id src)) src
                    \<lparr>d_title = strip (get_or (find_title sp) (src_url src)),
                     d_content = take 5000 (extract_article_content sp),
                     d_url = src_url src, d_author = None, d_published_date = None,
                     d_matches = check_keyword_matches (get_text sp) kws\<rparr>])"
  proof
    assume changed: "articles db' \<noteq> articles db"
    show "\<exists>sp aid. fetch_page w (src_url src) = Some sp \<and>
               check_keyword_matches (get_text sp) kws \<noteq> [] \<and>
               articles db' = articles db @
                 [new_article aid (utcnow w (src_id src)) src
                    \<lparr>d_title = strip (get_or (find_title sp) (src_url src)),
                     d_content = take 5000 (extract_article_content sp),
                     d_url = src_url src, d_author = None, d_published_date = None,
                     d_matches = check_keyword_matches (get_text sp) kws\<rparr>]"
    proof (cases "scrape_website w (src_url src) kws")
      case None
      from none [OF None] changed show ?thesis by simp
    next
      case (Some d)
      from scrape_website_Some [OF Some] obtain sp where
        f: "fetch_page w (src_url src) = Some sp"
        and m: "check_keyword_matches (get_text sp) kws \<noteq> []"
        and d: "d = \<lparr>d_title = strip (get_or (find_title sp) (src_url src)),
                d_content = take 5000 (extract_article_content sp),
                d_url = src_url src, d_author = None, d_published_date = None,
                d_matches = check_keyword_matches (get_text sp) kws\<rparr>"
        by blast
      have arts: "articles db' = articles (insert_unit (utcnow w (src_id src)) src d db)"
        using assms(1) Some by (simp add: db' unit_of_work_def scraped_def)
      with changed have "d_url d \<notin> art_url ` set (articles db)"
        by (auto simp: insert_unit_def)
      then have "articles db' = articles db @
          [new_article (next_id (map art_id (articles db))) (utcnow w (src_id src)) src d]"
        by (simp add: arts insert_unit_def)
      with f m show ?thesis unfolding d by blast
    qed
  qed
  from c1 c2 c3 show ?thesis by (intro conjI)
qed

lemma ev_blog: "process_source world0 [kw_python, kw_rust] db0 src_blog = Inr db_blog"
  by code_simp

lemma ev_blog_articles:
  "articles db_blog =
     [\<lparr>art_id = 1, art_title = ''News'', art_content = ''Hello'',
       art_summary = None, art_url = ''http://blog'', art_author = None,
       art_published_date = None, art_scraped_date = 101, art_source_id = 1\<rparr>]"
  by code_simp

lemma ev_blog_title: "strip (get_or (find_title page_blog) (src_url src_blog)) = ''News''"
  by code_simp

lemma ev_blog_body: "extract_article_content page_blog = ''Hello''"
  by code_simp

lemma ev_blog_nomatch:
  "check_keyword_matches (''News'' @ '' '' @ ''Hello'') [kw_python, kw_rust] = []"
  by code_simp

lemma ev_blog_match:
  "check_keyword_matches (get_text page_blog) [kw_python, kw_rust] =
     [\<lparr>m_keyword = kw_python, m_score = 1 / 10\<rparr>]"
  by code_simp

lemma ev_blog_fetch: "fetch_page world0 (src_url src_blog) = Some page_blog"
  by (simp add: world0_def src_blog_def)

lemma ev_blog_type: "source_type src_blog \<noteq> ''rss''"
  by (simp add: src_blog_def)

text \<open>
  C3, as stated, fails: the page \<open>page_blog\<close> has the keyword in its navigation bar only;
  the unit of work of its source commits and adds an article, although the extracted title
  \<open>News\<close> combined with the extracted body \<open>Hello\<close> has no keyword match.
\<close>

theorem website_gate_counterexample:
  "source_type src_blog \<noteq> ''rss'' \<and>
   fetch_page world0 (src_url src_blog) = Some page_blog \<and>
   process_source world0 [kw_python, kw_rust] db0 src_blog = Inr db_blog \<and>
   articles db0 = [] \<and>
   articles db_blog =
     [\<lparr>art_id = 1, art_title = ''News'', art_content = ''Hello'',
       art_summary = None, art_url = ''http://blog'', art_author = None,
       art_published_date = None, art_scraped_date = 101, art_source_id = 1\<rparr>] \<and>
   strip (get_or (find_title page_blog) (src_url src_blog)) = ''News'' \<and>
   extract_article_content page_blog = ''Hello'' \<and>
   check_keyword_matches (''News'' @ '' '' @ ''Hello'') [kw_python, kw_rust] = []"
  using ev_blog_type ev_blog_fetch ev_blog ev_blog_articles ev_blog_title ev_blog_body
    ev_blog_nomatch
  by (simp add: db0_def)

theorem website_gate_is_page_text_witness:
  "source_type src_blog \<noteq> ''rss'' \<and>
   process_source world0 [kw_python, kw_rust] db0 src_blog = Inr db_blog \<and>
   articles db_blog \<noteq> articles db0 \<and>
   fetch_page world0 (src_url src_blog) = Some page_blog \<and>
   check_keyword_matches (get_text page_blog) [kw_python, kw_rust] \<noteq> []"
proof -
  have ne: "articles db_blog \<noteq> articles db0"
    by (simp add: ev_blog_articles db0_def)
  from website_gate_is_page_text [OF ev_blog_type ev_blog] ne
  obtain sp where "fetch_page world0 (src_url src_blog) = Some sp"
    and "check_keyword_matches (get_text sp) [kw_python, kw_rust] \<noteq> []"
    by blast
  with ev_blog_fetch have "check_keyword_matches (get_text page_blog) [kw_python, kw_rust] \<noteq> []"
    by simp
  with ev_blog_type ev_blog ne ev_blog_fetch show ?thesis by simp
qed

section \<open>Concurrent runs\<close>

lemma run_ends_filter_le:
  "length (filter P (run_ends i xs)) \<le> length (filter P xs)"
proof -
  have "length (filter P (drop (Suc i) xs)) \<le> length (filter P (drop i xs))"
  proof (cases "i < length xs")
    case True
    then have "drop i xs = xs ! i # drop (Suc i) xs"
      by (simp add: Cons_nth_drop_Suc)
    then show ?thesis by simp
  next
    case False
    then show ?thesis by simp
  qed
  moreover have "length (filter P xs) =
      length (filter P (take i xs)) + length (filter P (drop i xs))"
    by (metis append_take_drop_id filter_append length_append)
  ultimately show ?thesis by (simp add: run_ends_def)
qed

lemma reachable_timer_bound:
  "reachable max_instances running \<Longrightarrow>
     length (filter (\<lambda>t. t = Timer) running) \<le> max_instances"
proof (induction rule: reachable.induct)
  case start
  show ?case by simp
next
  case (manual running)
  then show ?case by (simp add: manual_scrape_def)
next
  case (timer running)
  then show ?case by (simp add: timer_fires_def)
next
  case (ends running i)
  from run_ends_filter_le [of "\<lambda>t. t = Timer" i running] ends.IH show ?case
    by simp
qed

text \<open>
  C4, as stated, fails: with the timer's run in progress a manual trigger starts a second
  run, and two runs are in progress.
\<close>

theorem manual_trigger_overlaps_counterexample:
  "reachable 1 (manual_scrape (timer_fires 1 [])) \<and>
   manual_scrape (timer_fires 1 []) = [Timer, Manual] \<and>
   \<not> length (manual_scrape (timer_fires 1 [])) \<le> 1"
proof -
  have "reachable 1 (manual_scrape (timer_fires 1 []))"
    by (intro reachable.manual reachable.timer reachable.start)
  moreover have "manual_scrape (timer_fires 1 []) = [Timer, Manual]"
    by (simp add: manual_scrape_def timer_fires_def)
  ultimately show ?thesis by simp
qed

text \<open>
  C4, as amended.  In every reachable state at most \<open>max_instances\<close> of the runs in progress
  were started by the timer; a manual trigger is never dropped or delayed: it leads to a
  reachable state with one more run in progress, whatever was in progress before.
\<close>

theorem manual_trigger_always_starts_run:
  assumes "reachable max_instances running"
  shows "length (filter (\<lambda>t. t = Timer) running) \<le> max_instances \<and>
         reachable max_instances (manual_scrape running) \<and>
         length (manual_scrape running) = Suc (length running)"
  using assms reachable_timer_bound [OF assms]
  by (simp add: reachable.manual) (simp add: manual_scrape_def)

theorem manual_trigger_always_starts_run_witness:
  "reachable 1 [Timer] \<and> length (filter (\<lambda>t. t = Timer) [Timer]) \<le> 1 \<and>
   reachable 1 (manual_scrape [Timer]) \<and> length (manual_scrape [Timer]) = Suc (length [Timer])"
proof -
  have "reachable 1 (timer_fires 1 [])"
    by (intro reachable.timer reachable.start)
  then have r: "reachable 1 [Timer]"
    by (simp add: timer_fires_def)
  from manual_trigger_always_starts_run [OF r] r show ?thesis by simp
qed

section \<open>A failed unit of work\<close>

lemma failed_unit_ends_run:
  "process_source w kws db src = Inl e \<Longrightarrow>
     run_sources w kws db (src # srcs) = (Some PendingRollbackError, db)"
  by simp

lemma ev5_fail: "process_source world5 [kw_python, kw_rust] db0 src_blog = Inl StorageError"
  by code_simp

lemma ev5_run: "run_content_scraping world5 db0 = (Some PendingRollbackError, db0)"
  by code_simp

lemma ev5_feed_alone:
  "map art_url (articles (snd (run_sources world5 [kw_python, kw_rust] db0 [src_feed]))) =
     [''http://feed/a'']"
  by code_simp

text \<open>
  C5.  The first half of the claim holds: a unit of work that fails leaves the store as it
  was, and a unit that commits adds whole units only (\<open>process_source_cases\<close>,
  \<open>fold_insert_unit_complete\<close>).  The second half fails on the code.  In \<open>world5\<close> the
  website source comes first and the flush of its unit raises; the exception that the
  handler raises in turn ends the run with the store unchanged, and the feed source that
  follows is never processed, although processed from the same store it would commit the
  article of its first entry.
\<close>

theorem failed_unit_aborts_remaining_sources:
  "filter src_active (source_tbl db0) = [src_blog, src_feed] \<and>
   process_source world5 [kw_python, kw_rust] db0 src_blog = Inl StorageError \<and>
   run_sources world5 [kw_python, kw_rust] db0 [src_blog, src_feed] =
     (Some PendingRollbackError, db0) \<and>
   run_content_scraping world5 db0 = (Some PendingRollbackError, db0) \<and>
   articles db0 = [] \<and>
   map art_url (articles (snd (run_sources world5 [kw_python, kw_rust] db0 [src_feed]))) =
     [''http://feed/a'']"
proof -
  have "filter src_active (source_tbl db0) = [src_blog, src_feed]"
    by (simp add: db0_def src_blog_def src_feed_def)
  moreover have "run_sources world5 [kw_python, kw_rust] db0 [src_blog, src_feed] =
     (Some PendingRollbackError, db0)"
    by (simp add: ev5_fail)
  moreover have "articles db0 = []"
    by (simp add: db0_def)
  ultimately show ?thesis
    using ev5_fail ev5_run ev5_feed_alone by simp
qed

section \<open>The last-scraped time\<close>







lemma run_sources_no_fault:
  "\<forall>s\<in>set srcs. storage_fault w (src_id s) = None \<Longrightarrow>
     fst (run_sources w kws db srcs) = None"
  by (induction srcs arbitrary: db) (simp_all add: process_source_no_fault)








section \<open>The stored body\<close>

lemma capped_take: "capped body (take 5000 body)"
  by (simp add: capped_def)

lemma fresh_ext_subset: "fresh_ext xs ys \<Longrightarrow> set xs \<subseteq> set ys"
  by (auto simp: fresh_ext_def)

lemma persist_article_url_present:
  assumes "persist_article now src d (tx, b) = Inr (tx', b')"
  shows "d_url d \<in> art_url ` set (articles tx')"
proof -
  from persist_article_cases [OF assms] show ?thesis
  proof (elim disjE conjE)
    assume "d_url d \<in> art_url ` set (articles tx)" and "tx' = tx"
    then show ?thesis by simp
  next
    assume "tx' = add_keyword_rows (next_id (map art_id (articles tx))) (d_matches d)
                  (tx\<lparr>articles := articles tx @
                        [new_article (next_id (map art_id (articles tx))) now src d]\<rparr>)"
    then show ?thesis by (simp add: new_article_def)
  qed
qed

lemma persist_articles_urls_present:
  "persist_articles now src ds (tx, b) = Inr (tx', b') \<Longrightarrow>
     \<forall>d\<in>set ds. d_url d \<in> art_url ` set (articles tx')"
proof (induction ds arbitrary: tx b)
  case Nil
  then show ?case by simp
next
  case (Cons d ds)
  then obtain tx1 b1 where 1: "persist_article now src d (tx, b) = Inr (tx1, b1)"
    and 2: "persist_articles now src ds (tx1, b1) = Inr (tx', b')"
    by (auto split: sum.splits)
  from persist_articles_fresh [OF 2] have "set (articles tx1) \<subseteq> set (articles tx')"
    by (rule fresh_ext_subset)
  with persist_article_url_present [OF 1] have "d_url d \<in> art_url ` set (articles tx')"
    by blast
  with Cons.IH [OF 2] show ?case by simp
qed

lemma process_source_own:
  assumes p: "process_source w kws db src = Inr db'"
    and d: "d \<in> set (scraped w kws src)"
    and fresh: "d_url d \<notin> art_url ` set (articles db)"
    and uniq: "\<forall>d'\<in>set (scraped w kws src). d_url d' = d_url d \<longrightarrow> d' = d"
    and new: "articles db' = articles db @ new"
  shows "\<exists>a\<in>set new. a = new_article (art_id a) (utcnow w (src_id src)) src d"
proof -
  from process_source_Inr [OF p] obtain tx b where
    pa: "persist_articles (utcnow w (src_id src)) src (scraped w kws src)
          (db, storage_fault w (src_id src)) = Inr (tx, b)"
    and db': "db' = set_last_scraped (src_id src) (utcnow w (src_id src)) tx"
    by blast
  from persist_articles_urls_present [OF pa] d have "d_url d \<in> art_url ` set (articles db')"
    by (simp add: db')
  then obtain a where a: "a \<in> set (articles db')" and u: "art_url a = d_url d"
    by auto
  from fresh u have "a \<notin> set (articles db)"
    by (metis imageI)
  with a new have an: "a \<in> set new" by simp
  from process_source_origin [OF p] new have
    "list_all (\<lambda>a. \<exists>d\<in>set (scraped w kws src). \<exists>aid.
                  a = new_article aid (utcnow w (src_id src)) src d) new"
    by (auto simp: appended_def)
  with an obtain d' aid where d': "d' \<in> set (scraped w kws src)"
    and a': "a = new_article aid (utcnow w (src_id src)) src d'"
    by (auto simp: list_all_iff)
  have "art_url a = d_url d'" by (subst a') (simp add: new_article_def)
  with u uniq d' have "d' = d" by simp
  moreover have "art_id a = aid" by (subst a') (simp add: new_article_def)
  ultimately have "a = new_article (art_id a) (utcnow w (src_id src)) src d"
    using a' by simp
  with an show ?thesis by blast
qed

lemma process_source_new_bound:
  assumes "process_source w kws db src = Inr db'" and "articles db' = articles db @ new"
  shows "length new \<le> length (scraped w kws src)"
  using process_source_length [OF assms(1)] assms(2) by simp

text \<open>
  C7.  When a source's unit of work commits, the articles it has added are as follows.
  In the website path every added article has the source's URL and stores the extracted
  article content of the fetched page under the cap, and when the page text has a keyword
  match and the URL is new to the table exactly one such article is added.  In the feed
  path every added article is made from one of the first ten entries, which has a keyword
  match, and stores that entry's own description, a space and summary under the cap; and
  every matching entry among the first ten whose URL is new to the table and shared with
  no other matching entry has its article added, with its own title and capped body.
  Under the cap means: the first 5000 characters, which are exactly 5000 characters for a
  body longer than 5000 and the body unchanged otherwise.
\<close>

theorem stored_body_capped:
  assumes "process_source w kws db src = Inr db'"
  shows "\<exists>new. articles db' = articles db @ new \<and>
     (source_type src \<noteq> ''rss'' \<longrightarrow>
        (\<forall>sp. fetch_page w (src_url src) = Some sp \<longrightarrow>
           (\<forall>a\<in>set new. art_url a = src_url src \<and>
               capped (extract_article_content sp) (art_content a)) \<and>
           (check_keyword_matches (get_text sp) kws \<noteq> [] \<and>
            src_url src \<notin> art_url ` set (articles db) \<longrightarrow>
              (\<exists>a. new = [a] \<and> art_url a = src_url src \<and>
                   capped (extract_article_content sp) (art_content a)))) \<and>
        (fetch_page w (src_url src) = None \<longrightarrow> new = [])) \<and>
     (source_type src = ''rss'' \<longrightarrow>
        (\<forall>es. feed_entries w (src_url src) = Some es \<longrightarrow>
           (\<forall>a\<in>set new. \<exists>e\<in>set (take 10 es). entry_matches kws e \<noteq> [] \<and>
               a = new_article (art_id a) (utcnow w (src_id src)) src (entry_data w kws e) \<and>
               capped (entry_content e) (art_content a)) \<and>
           (\<forall>e\<in>set (take 10 es).
               entry_matches kws e \<noteq> [] \<and>
               get_or (e_link e) [] \<notin> art_url ` set (articles db) \<and>
               (\<forall>e'\<in>set (take 10 es).
                   entry_matches kws e' \<noteq> [] \<and> get_or (e_link e') [] = get_or (e_link e) [] \<longrightarrow>
                   e' = e) \<longrightarrow>
               (\<exists>a\<in>set new. art_url a = get_or (e_link e) [] \<and> art_title a = entry_title e \<and>
                   capped (entry_content e) (art_content a)))) \<and>
        (feed_entries w (src_url src) = None \<longrightarrow> new = []))"
proof -
  let ?now = "utcnow w (src_id src)"
  from process_source_origin [OF assms] obtain new where
    new: "articles db' = articles db @ new"
    and orig: "list_all (\<lambda>a. \<exists>d\<in>set (scraped w kws src). \<exists>aid.
                  a = new_article aid ?now src d) new"
    by (auto simp: appended_def)
  have from_data: "\<exists>d\<in>set (scraped w kws src). a = new_article (art_id a) ?now src d"
    if "a \<in> set new" for a
  proof -
    from that orig obtain d aid where d: "d \<in> set (scraped w kws src)"
      and a: "a = new_article aid ?now src d"
      by (auto simp: list_all_iff)
    have id: "art_id a = aid" by (subst a) (simp add: new_article_def)
    have "a = new_article (art_id a) ?now src d" by (subst id) (rule a)
    with d show ?thesis by (rule bexI [rotated])
  qed
  have bound: "length new \<le> length (scraped w kws src)"
    by (rule process_source_new_bound [OF assms new])
  have web: "(\<forall>sp. fetch_page w (src_url src) = Some sp \<longrightarrow>
           (\<forall>a\<in>set new. art_url a = src_url src \<and>
               capped (extract_article_content sp) (art_content a)) \<and>
           (check_keyword_matches (get_text sp) kws \<noteq> [] \<and>
            src_url src \<notin> art_url ` set (articles db) \<longrightarrow>
              (\<exists>a. new = [a] \<and> art_url a = src_url src \<and>
                   capped (extract_article_content sp) (art_content a)))) \<and>
        (fetch_page w (src_url src) = None \<longrightarrow> new = [])"
    if web: "source_type src \<noteq> ''rss''"
  proof (intro conjI allI impI)
    fix sp
    assume f: "fetch_page w (src_url src) = Some sp"
    show "\<forall>a\<in>set new. art_url a = src_url src \<and>
               capped (extract_article_content sp) (art_content a)"
    proof
      fix a assume "a \<in> set new"
      from from_data [OF this] obtain d where d: "d \<in> set (scraped w kws src)"
        and a: "a = new_article (art_id a) ?now src d"
        by blast
      from d web have "scrape_website w (src_url src) kws = Some d"
        by (auto simp: scraped_def split: option.splits)
      from scrape_website_Some [OF this] f
      have "d_url d = src_url src" and "d_content d = take 5000 (extract_article_content sp)"
        by auto
      moreover have "art_url a = d_url d" and "art_content a = d_content d"
        by (subst a, simp add: new_article_def)+
      ultimately show "art_url a = src_url src \<and>
               capped (extract_article_content sp) (art_content a)"
        by (simp add: capped_take)
    qed
  next
    fix sp
    assume f: "fetch_page w (src_url src) = Some sp"
      and m: "check_keyword_matches (get_text sp) kws \<noteq> [] \<and>
            src_url src \<notin> art_url ` set (articles db)"
    let ?d = "\<lparr>d_title = strip (get_or (find_title sp) (src_url src)),
                d_content = take 5000 (extract_article_content sp),
                d_url = src_url src, d_author = None, d_published_date = None,
                d_matches = check_keyword_matches (get_text sp) kws\<rparr>"
    have sw: "scrape_website w (src_url src) kws = Some ?d"
      using f m by (simp add: scrape_website_def Let_def get_or_def split: option.splits)
    then have sc: "scraped w kws src = [?d]"
      using web by (simp add: scraped_def)
    have "\<exists>a\<in>set new. a = new_article (art_id a) ?now src ?d"
    proof (rule process_source_own [OF assms _ _ _ new])
      show "?d \<in> set (scraped w kws src)" by (simp add: sc)
      show "d_url ?d \<notin> art_url ` set (articles db)" using m by simp
      show "\<forall>d'\<in>set (scraped w kws src). d_url d' = d_url ?d \<longrightarrow> d' = ?d"
        by (simp add: sc)
    qed
    then obtain a where an: "a \<in> set new" and a: "a = new_article (art_id a) ?now src ?d"
      by blast
    from bound sc have "length new \<le> 1" by simp
    with an have n1: "new = [a]"
      by (cases new) auto
    have "art_url a = src_url src" and "art_content a = take 5000 (extract_article_content sp)"
      by (subst a, simp add: new_article_def)+
    with n1 show "\<exists>a. new = [a] \<and> art_url a = src_url src \<and>
                   capped (extract_article_content sp) (art_content a)"
      by (simp add: capped_take)
  next
    assume "fetch_page w (src_url src) = None"
    then have "scraped w kws src = []"
      using web by (simp add: scraped_def scrape_website_def)
    with bound show "new = []" by simp
  qed
  have feed: "(\<forall>es. feed_entries w (src_url src) = Some es \<longrightarrow>
           (\<forall>a\<in>set new. \<exists>e\<in>set (take 10 es). entry_matches kws e \<noteq> [] \<and>
               a = new_article (art_id a) ?now src (entry_data w kws e) \<and>
               capped (entry_content e) (art_content a)) \<and>
           (\<forall>e\<in>set (take 10 es).
               entry_matches kws e \<noteq> [] \<and>
               get_or (e_link e) [] \<notin> art_url ` set (articles db) \<and>
               (\<forall>e'\<in>set (take 10 es).
                   entry_matches kws e' \<noteq> [] \<and> get_or (e_link e') [] = get_or (e_link e) [] \<longrightarrow>
                   e' = e) \<longrightarrow>
               (\<exists>a\<in>set new. art_url a = get_or (e_link e) [] \<and> art_title a = entry_title e \<and>
                   capped (entry_content e) (art_content a)))) \<and>
        (feed_entries w (src_url src) = None \<longrightarrow> new = [])"
    if rss: "source_type src = ''rss''"
  proof (intro conjI allI impI)
    fix es
    assume f: "feed_entries w (src_url src) = Some es"
    have sc: "scraped w kws src =
        map (entry_data w kws) (filter (\<lambda>e. entry_matches kws e \<noteq> []) (take 10 es))"
      using rss f by (simp add: scraped_def scrape_rss_eq)
    show "\<forall>a\<in>set new. \<exists>e\<in>set (take 10 es). entry_matches kws e \<noteq> [] \<and>
               a = new_article (art_id a) ?now src (entry_data w kws e) \<and>
               capped (entry_content e) (art_content a)"
    proof
      fix a assume "a \<in> set new"
      from from_data [OF this] obtain d where d: "d \<in> set (scraped w kws src)"
        and a: "a = new_article (art_id a) ?now src d"
        by blast
      from d obtain e where e: "e \<in> set (take 10 es)" and me: "entry_matches kws e \<noteq> []"
        and de: "d = entry_data w kws e"
        by (auto simp: sc)
      have "art_content a = d_content d"
        by (subst a) (simp add: new_article_def)
      then have "capped (entry_content e) (art_content a)"
        by (simp add: de entry_data_def capped_take)
      with e me a de show "\<exists>e\<in>set (take 10 es). entry_matches kws e \<noteq> [] \<and>
               a = new_article (art_id a) ?now src (entry_data w kws e) \<and>
               capped (entry_content e) (art_content a)"
        by blast
    qed
  next
    fix es
    assume f: "feed_entries w (src_url src) = Some es"
    show "\<forall>e\<in>set (take 10 es).
               entry_matches kws e \<noteq> [] \<and>
               get_or (e_link e) [] \<notin> art_url ` set (articles db) \<and>
               (\<forall>e'\<in>set (take 10 es).
                   entry_matches kws e' \<noteq> [] \<and> get_or (e_link e') [] = get_or (e_link e) [] \<longrightarrow>
                   e' = e) \<longrightarrow>
               (\<exists>a\<in>set new. art_url a = get_or (e_link e) [] \<and> art_title a = entry_title e \<and>
                   capped (entry_content e) (art_content a))"
    proof (intro ballI impI)
    fix e
    assume e: "e \<in> set (take 10 es)"
      and h: "entry_matches kws e \<noteq> [] \<and>
               get_or (e_link e) [] \<notin> art_url ` set (articles db) \<and>
               (\<forall>e'\<in>set (take 10 es).
                   entry_matches kws e' \<noteq> [] \<and> get_or (e_link e') [] = get_or (e_link e) [] \<longrightarrow>
                   e' = e)"
    have sc: "scraped w kws src =
        map (entry_data w kws) (filter (\<lambda>e. entry_matches kws e \<noteq> []) (take 10 es))"
      using rss f by (simp add: scraped_def scrape_rss_eq)
    let ?d = "entry_data w kws e"
    have "\<exists>a\<in>set new. a = new_article (art_id a) ?now src ?d"
    proof (rule process_source_own [OF assms _ _ _ new])
      show "?d \<in> set (scraped w kws src)" using e h by (simp add: sc)
      show "d_url ?d \<notin> art_url ` set (articles db)" using h by (simp add: entry_data_def)
      show "\<forall>d'\<in>set (scraped w kws src). d_url d' = d_url ?d \<longrightarrow> d' = ?d"
      proof (intro ballI impI)
        fix d' assume "d' \<in> set (scraped w kws src)" and u: "d_url d' = d_url ?d"
        then obtain e' where e': "e' \<in> set (take 10 es)" and m': "entry_matches kws e' \<noteq> []"
          and d': "d' = entry_data w kws e'"
          by (auto simp: sc)
        from u have "get_or (e_link e') [] = get_or (e_link e) []"
          by (simp add: d' entry_data_def)
        with h e' m' have "e' = e" by blast
        then show "d' = ?d" by (simp add: d')
      qed
    qed
    then obtain a where an: "a \<in> set new" and a: "a = new_article (art_id a) ?now src ?d"
      by blast
    have "art_url a = get_or (e_link e) []" and "art_title a = entry_title e"
      and "art_content a = take 5000 (entry_content e)"
      by (subst a, simp add: new_article_def entry_data_def)+
    with an show "\<exists>a\<in>set new. art_url a = get_or (e_link e) [] \<and> art_title a = entry_title e \<and>
                   capped (entry_content e) (art_content a)"
      by (auto simp: capped_take)
    qed
  next
    assume "feed_entries w (src_url src) = None"
    then have "scraped w kws src = []"
      using rss by (simp add: scraped_def scrape_rss_eq)
    with bound show "new = []" by simp
  qed
  have web': "source_type src \<noteq> ''rss'' \<longrightarrow>
        (\<forall>sp. fetch_page w (src_url src) = Some sp \<longrightarrow>
           (\<forall>a\<in>set new. art_url a = src_url src \<and>
               capped (extract_article_content sp) (art_content a)) \<and>
           (check_keyword_matches (get_text sp) kws \<noteq> [] \<and>
            src_url src \<notin> art_url ` set (articles db) \<longrightarrow>
              (\<exists>a. new = [a] \<and> art_url a = src_url src \<and>
                   capped (extract_article_content sp) (art_content a)))) \<and>
        (fetch_page w (src_url src) = None \<longrightarrow> new = [])"
    by (rule impI) (rule web)
  have feed': "source_type src = ''rss'' \<longrightarrow>
        (\<forall>es. feed_entries w (src_url src) = Some es \<longrightarrow>
           (\<forall>a\<in>set new. \<exists>e\<in>set (take 10 es). entry_matches kws e \<noteq> [] \<and>
               a = new_article (art_id a) ?now src (entry_data w kws e) \<and>
               capped (entry_content e) (art_content a)) \<and>
           (\<forall>e\<in>set (take 10 es).
               entry_matches kws e \<noteq> [] \<and>
               get_or (e_link e) [] \<notin> art_url ` set (articles db) \<and>
               (\<forall>e'\<in>set (take 10 es).
                   entry_matches kws e' \<noteq> [] \<and> get_or (e_link e') [] = get_or (e_link e) [] \<longrightarrow>
                   e' = e) \<longrightarrow>
               (\<exists>a\<in>set new. art_url a = get_or (e_link e) [] \<and> art_title a = entry_title e \<and>
                   capped (entry_content e) (art_content a)))) \<and>
        (feed_entries w (src_url src) = None \<longrightarrow> new = [])"
    by (rule impI) (rule feed)
  show ?thesis
    by (rule exI [of _ new]) (rule conjI [OF new conjI [OF web' feed']])
qed

lemma ev7_lower: "lower (get_text page_long) = ''python'' @ '' '' @ replicate 5001 CHR ''x''"
  by (simp add: page_long_def lower_def lower_char_def)

lemma ev7_match: "check_keyword_matches (get_text page_long) [kw_python, kw_rust] \<noteq> []"
proof -
  have "lower (kw_term kw_python) = ''python''"
    by (simp add: kw_python_def lower_def lower_char_def)
  moreover have "sublist ''python'' (''python'' @ '' '' @ replicate 5001 CHR ''x'')"
    by (rule sublist_append_rightI)
  ultimately have "sublist (lower (kw_term kw_python)) (lower (get_text page_long))"
    by (simp only: ev7_lower)
  then show ?thesis
    by (simp add: check_keyword_matches_eq)
qed

lemma ev7_fetch: "fetch_page world7 (src_url src_blog) = Some page_long"
  by (simp add: world7_def world0_def src_blog_def)

lemma ev7_body: "extract_article_content page_long = replicate 5001 CHR ''x''"
  by (simp add: extract_article_content_def article_selectors_def page_long_def)

lemma ev7_commit: "process_source world7 [kw_python, kw_rust] db0 src_blog = Inr db7"
proof -
  have "storage_fault world7 (src_id src_blog) = None"
    by (simp add: world7_def world0_def)
  then have "process_source world7 [kw_python, kw_rust] db0 src_blog =
      Inr (unit_of_work world7 [kw_python, kw_rust] db0 src_blog)"
    by (rule process_source_no_fault)
  then show ?thesis by (simp add: db7_def)
qed

lemma ev7f_lower:
  "lower (entry_title entry_long @ '' '' @ entry_content entry_long) =
     ''python'' @ '' '' @ replicate 4000 CHR ''x'' @ '' '' @ replicate 4000 CHR ''y''"
  by (simp add: entry_title_def entry_content_def entry_long_def get_or_def lower_def
      lower_char_def)

lemma ev7f_match: "entry_matches [kw_python, kw_rust] entry_long \<noteq> []"
proof -
  have "lower (kw_term kw_python) = ''python''"
    by (simp add: kw_python_def lower_def lower_char_def)
  moreover have "sublist ''python''
      (''python'' @ '' '' @ replicate 4000 CHR ''x'' @ '' '' @ replicate 4000 CHR ''y'')"
    by (rule sublist_append_rightI)
  ultimately have "sublist (lower (kw_term kw_python))
      (lower (entry_title entry_long @ '' '' @ entry_content entry_long))"
    by (simp only: ev7f_lower)
  then show ?thesis
    by (simp add: entry_matches_def check_keyword_matches_eq)
qed

lemma ev7f_feed: "feed_entries world7f (src_url src_feed) = Some [entry_long]"
  by (simp add: world7f_def src_feed_def)

lemma ev7f_length: "length (entry_content entry_long) = 8001"
  by (simp add: entry_content_def entry_long_def get_or_def)

lemma ev7f_commit: "process_source world7f [kw_python, kw_rust] db0 src_feed = Inr db7f"
proof -
  have "storage_fault world7f (src_id src_feed) = None"
    by (simp add: world7f_def world0_def)
  then have "process_source world7f [kw_python, kw_rust] db0 src_feed =
      Inr (unit_of_work world7f [kw_python, kw_rust] db0 src_feed)"
    by (rule process_source_no_fault)
  then show ?thesis by (simp add: db7f_def)
qed

lemma ev7f_scraped: "length (scraped world7f [kw_python, kw_rust] src_feed) = 1"
  using ev7f_match
  by (simp add: scraped_def scrape_rss_eq ev7f_feed) (simp add: src_feed_def)

lemma ev_feed_commit: "process_source world0 [kw_python, kw_rust] db0 src_feed = Inr db_feed"
  by code_simp

lemma ev_feed_content: "map art_content (articles db_feed) = [''python news python news'']"
  by code_simp

lemma capped_long: "capped body c \<Longrightarrow> 5000 < length body \<Longrightarrow> length c = 5000"
  by (simp add: capped_def)

theorem stored_body_capped_witness:
  "process_source world7 [kw_python, kw_rust] db0 src_blog = Inr db7 \<and>
   fetch_page world7 (src_url src_blog) = Some page_long \<and>
   length (extract_article_content page_long) = 5001 \<and>
   map (\<lambda>a. length (art_content a)) (articles db7) = [5000] \<and>
   process_source world7f [kw_python, kw_rust] db0 src_feed = Inr db7f \<and>
   feed_entries world7f (src_url src_feed) = Some [entry_long] \<and>
   length (entry_content entry_long) = 8001 \<and>
   map (\<lambda>a. length (art_content a)) (articles db7f) = [5000] \<and>
   process_source world0 [kw_python, kw_rust] db0 src_blog = Inr db_blog \<and>
   map art_content (articles db_blog) = [''Hello''] \<and>
   process_source world0 [kw_python, kw_rust] db0 src_feed = Inr db_feed \<and>
   map art_content (articles db_feed) = [''python news python news'']"
proof -
  have z: "articles db0 = []" by (simp add: db0_def)
  have web: "source_type src_blog \<noteq> ''rss''" by (simp add: src_blog_def)
  have rss: "source_type src_feed = ''rss''" by (simp add: src_feed_def)
  have l7: "length (extract_article_content page_long) = 5001"
    by (simp add: ev7_body)
  have 1: "map (\<lambda>a. length (art_content a)) (articles db7) = [5000]"
  proof -
    from stored_body_capped [OF ev7_commit] obtain new where
      n: "articles db7 = articles db0 @ new"
      and w: "source_type src_blog \<noteq> ''rss'' \<longrightarrow>
        (\<forall>sp. fetch_page world7 (src_url src_blog) = Some sp \<longrightarrow>
           (\<forall>a\<in>set new. art_url a = src_url src_blog \<and>
               capped (extract_article_content sp) (art_content a)) \<and>
           (check_keyword_matches (get_text sp) [kw_python, kw_rust] \<noteq> [] \<and>
            src_url src_blog \<notin> art_url ` set (articles db0) \<longrightarrow>
              (\<exists>a. new = [a] \<and> art_url a = src_url src_blog \<and>
                   capped (extract_article_content sp) (art_content a)))) \<and>
        (fetch_page world7 (src_url src_blog) = None \<longrightarrow> new = [])"
      by (elim exE conjE)
    from w web ev7_fetch have
      "check_keyword_matches (get_text page_long) [kw_python, kw_rust] \<noteq> [] \<and>
            src_url src_blog \<notin> art_url ` set (articles db0) \<longrightarrow>
              (\<exists>a. new = [a] \<and> art_url a = src_url src_blog \<and>
                   capped (extract_article_content page_long) (art_content a))"
      by blast
    with ev7_match obtain a where a: "new = [a]"
      and c: "capped (extract_article_content page_long) (art_content a)"
      by (auto simp: z)
    from capped_long [OF c] l7 have "length (art_content a) = 5000" by simp
    then show ?thesis by (simp add: n z a)
  qed
  have 2: "map (\<lambda>a. length (art_content a)) (articles db7f) = [5000]"
  proof -
    from stored_body_capped [OF ev7f_commit] obtain new where
      n: "articles db7f = articles db0 @ new"
      and f: "source_type src_feed = ''rss'' \<longrightarrow>
        (\<forall>es. feed_entries world7f (src_url src_feed) = Some es \<longrightarrow>
           (\<forall>a\<in>set new. \<exists>e\<in>set (take 10 es). entry_matches [kw_python, kw_rust] e \<noteq> [] \<and>
               a = new_article (art_id a) (utcnow world7f (src_id src_feed)) src_feed
                     (entry_data world7f [kw_python, kw_rust] e) \<and>
               capped (entry_content e) (art_content a)) \<and>
           (\<forall>e\<in>set (take 10 es).
               entry_matches [kw_python, kw_rust] e \<noteq> [] \<and>
               get_or (e_link e) [] \<notin> art_url ` set (articles db0) \<and>
               (\<forall>e'\<in>set (take 10 es).
                   entry_matches [kw_python, kw_rust] e' \<noteq> [] \<and>
                   get_or (e_link e') [] = get_or (e_link e) [] \<longrightarrow>
                   e' = e) \<longrightarrow>
               (\<exists>a\<in>set new. art_url a = get_or (e_link e) [] \<and> art_title a = entry_title e \<and>
                   capped (entry_content e) (art_content a)))) \<and>
        (feed_entries world7f (src_url src_feed) = None \<longrightarrow> new = [])"
      by (elim exE conjE)
    from f rss ev7f_feed have
      ex: "\<forall>e\<in>set (take 10 [entry_long]).
               entry_matches [kw_python, kw_rust] e \<noteq> [] \<and>
               get_or (e_link e) [] \<notin> art_url ` set (articles db0) \<and>
               (\<forall>e'\<in>set (take 10 [entry_long]).
                   entry_matches [kw_python, kw_rust] e' \<noteq> [] \<and>
                   get_or (e_link e') [] = get_or (e_link e) [] \<longrightarrow>
                   e' = e) \<longrightarrow>
               (\<exists>a\<in>set new. art_url a = get_or (e_link e) [] \<and> art_title a = entry_title e \<and>
                   capped (entry_content e) (art_content a))"
      by blast
    with ev7f_match obtain a where an: "a \<in> set new"
      and c: "capped (entry_content entry_long) (art_content a)"
      by (auto simp: z)
    from process_source_new_bound [OF ev7f_commit n] have "length new \<le> 1"
      by (simp add: ev7f_scraped)
    with an have a: "new = [a]" by (cases new) auto
    from capped_long [OF c] ev7f_length have "length (art_content a) = 5000" by simp
    then show ?thesis by (simp add: n z a)
  qed
  have 3: "map art_content (articles db_blog) = [''Hello'']"
    by (simp add: ev_blog_articles)
  show ?thesis
    by (intro conjI ev7_commit ev7_fetch l7 1 ev7f_commit ev7f_feed ev7f_length 2
        ev_blog 3 ev_feed_commit ev_feed_content)
qed

text \<open>
  C8.  A run only appends to the association table, and every row it appends has a
  relevance score strictly greater than 0.
\<close>

theorem persisted_scores_positive:
  "\<exists>rows. article_keywords (snd (run_content_scraping w db)) = article_keywords db @ rows \<and>
          (\<forall>r\<in>set rows. 0 < relevance_score r)"
  using run_sources_rows [of db w "filter kw_active (keyword_tbl db)"
      "filter src_active (source_tbl db)"]
  by (auto simp: run_content_scraping_def appended_def list_all_iff)

theorem persisted_scores_positive_witness:
  "article_keywords (snd (run_content_scraping world0 db0)) = article_keywords db0 @
     [\<lparr>ak_id = 1, ak_article_id = 1, ak_keyword_id = 1, relevance_score = 1 / 10\<rparr>,
      \<lparr>ak_id = 2, ak_article_id = 2, ak_keyword_id = 1, relevance_score = 3 / 10\<rparr>] \<and>
   map (\<lambda>r. 0 < relevance_score r) (article_keywords (snd (run_content_scraping world0 db0))) =
     [True, True]"
proof -
  have e: "article_keywords (snd (run_content_scraping world0 db0)) =
     [\<lparr>ak_id = 1, ak_article_id = 1, ak_keyword_id = 1, relevance_score = 1 / 10\<rparr>,
      \<lparr>ak_id = 2, ak_article_id = 2, ak_keyword_id = 1, relevance_score = 3 / 10\<rparr>]"
    using ev_db1_rows by (simp add: db1_def)
  have z: "article_keywords db0 = []" by (simp add: db0_def)
  from persisted_scores_positive [of world0 db0] obtain rows where
    r: "article_keywords (snd (run_content_scraping world0 db0)) = article_keywords db0 @ rows"
    and p: "\<forall>r\<in>set rows. 0 < relevance_score r"
    by blast
  from r have "rows = article_keywords (snd (run_content_scraping world0 db0))"
    by (simp add: z)
  with p have "\<forall>r\<in>set (article_keywords (snd (run_content_scraping world0 db0))). 0 < relevance_score r"
    by simp
  then have "map (\<lambda>r. 0 < relevance_score r) (article_keywords (snd (run_content_scraping world0 db0))) =
     [True, True]"
    by (simp add: e)
  then show ?thesis by (simp add: e z)
qed

text \<open>
  C9.  For a feed source whose feed has the entries \<open>es\<close>, the scraper returns the
  dictionaries of those of the first ten entries of \<open>es\<close> that have a keyword match, in
  feed order, and nothing else.  When the source's unit of work commits, it has added at
  most ten articles, each made from one of the first ten entries, and that entry has at
  least one keyword match.
\<close>

theorem feed_first_ten_entries:
  assumes "source_type src = ''rss''" and "feed_entries w (src_url src) = Some es"
  shows "scrape_rss w (src_url src) kws =
           map (entry_data w kws) (filter (\<lambda>e. entry_matches kws e \<noteq> []) (take 10 es)) \<and>
         (\<forall>db'. process_source w kws db src = Inr db' \<longrightarrow>
            (\<exists>new. articles db' = articles db @ new \<and> length new \<le> 10 \<and>
               (\<forall>a\<in>set new. \<exists>e\<in>set (take 10 es). entry_matches kws e \<noteq> [] \<and>
                  (\<exists>aid. a = new_article aid (utcnow w (src_id src)) src (entry_data w kws e)))))"
proof (intro conjI allI impI)
  show eq: "scrape_rss w (src_url src) kws =
           map (entry_data w kws) (filter (\<lambda>e. entry_matches kws e \<noteq> []) (take 10 es))"
    using assms(2) by (simp add: scrape_rss_eq)
  fix db'
  assume p: "process_source w kws db src = Inr db'"
  have sc: "scraped w kws src =
           map (entry_data w kws) (filter (\<lambda>e. entry_matches kws e \<noteq> []) (take 10 es))"
    using assms(1) eq by (simp add: scraped_def)
  have "length (filter (\<lambda>e. entry_matches kws e \<noteq> []) (take 10 es)) \<le> length (take 10 es)"
    by (rule length_filter_le)
  then have len: "length (scraped w kws src) \<le> 10"
    by (simp add: sc)
  from process_source_origin [OF p] obtain new where
    new: "articles db' = articles db @ new"
    and orig: "list_all (\<lambda>a. \<exists>d\<in>set (scraped w kws src). \<exists>aid.
                  a = new_article aid (utcnow w (src_id src)) src d) new"
    by (auto simp: appended_def)
  from process_source_length [OF p] len new have "length new \<le> 10"
    by simp
  moreover have "\<forall>a\<in>set new. \<exists>e\<in>set (take 10 es). entry_matches kws e \<noteq> [] \<and>
                  (\<exists>aid. a = new_article aid (utcnow w (src_id src)) src (entry_data w kws e))"
  proof
    fix a assume "a \<in> set new"
    with orig obtain d aid where d: "d \<in> set (scraped w kws src)"
      and a: "a = new_article aid (utcnow w (src_id src)) src d"
      by (auto simp: list_all_iff)
    from d obtain e where "e \<in> set (take 10 es)" and "entry_matches kws e \<noteq> []"
      and "d = entry_data w kws e"
      by (auto simp: sc)
    with a show "\<exists>e\<in>set (take 10 es). entry_matches kws e \<noteq> [] \<and>
                  (\<exists>aid. a = new_article aid (utcnow w (src_id src)) src (entry_data w kws e))"
      by blast
  qed
  ultimately show "\<exists>new. articles db' = articles db @ new \<and> length new \<le> 10 \<and>
               (\<forall>a\<in>set new. \<exists>e\<in>set (take 10 es). entry_matches kws e \<noteq> [] \<and>
                  (\<exists>aid. a = new_article aid (utcnow w (src_id src)) src (entry_data w kws e)))"
    using new by blast
qed

lemma ev9_commit: "process_source world9 [kw_python, kw_rust] db0 src_feed = Inr db9"
  by code_simp

lemma ev9_urls:
  "map art_url (articles db9) = [''a'', ''b'', ''d'', ''e'', ''f'', ''g'', ''h'', ''i'', ''j'']"
  by code_simp

lemma ev9_feed: "feed_entries world9 (src_url src_feed) = Some entries12"
  by (simp add: world9_def src_feed_def)

theorem feed_first_ten_entries_witness:
  "source_type src_feed = ''rss'' \<and>
   feed_entries world9 (src_url src_feed) = Some entries12 \<and>
   length entries12 = 12 \<and>
   process_source world9 [kw_python, kw_rust] db0 src_feed = Inr db9 \<and>
   map art_url (articles db9) = [''a'', ''b'', ''d'', ''e'', ''f'', ''g'', ''h'', ''i'', ''j''] \<and>
   length (articles db9) \<le> length (articles db0) + 10"
proof -
  have t: "source_type src_feed = ''rss''"
    by (simp add: src_feed_def)
  from feed_first_ten_entries [OF t ev9_feed, of "[kw_python, kw_rust]" db0] ev9_commit
  obtain new where "articles db9 = articles db0 @ new" and "length new \<le> 10"
    by blast
  then have "length (articles db9) \<le> length (articles db0) + 10"
    by simp
  moreover have "length entries12 = 12"
    by (simp add: entries12_def)
  ultimately show ?thesis
    using t ev9_feed ev9_commit ev9_urls by simp
qed

lemma persist_articles_all_known:
  "\<forall>d\<in>set ds. d_url d \<in> art_url ` set (articles tx) \<Longrightarrow>
   persist_articles now src ds (tx, b) = Inr (tx', b') \<Longrightarrow> tx' = tx"
proof (induction ds arbitrary: b)
  case Nil
  then show ?case by simp
next
  case (Cons d ds)
  from Cons.prems(2) obtain tx1 b1 where 1: "persist_article now src d (tx, b) = Inr (tx1, b1)"
    and 2: "persist_articles now src ds (tx1, b1) = Inr (tx', b')"
    by (auto split: sum.splits)
  from persist_article_cases [OF 1] Cons.prems(1) have "tx1 = tx" by auto
  with Cons.IH [of b1] Cons.prems(1) 2 show ?case by simp
qed

text \<open>
  C10.  In the feed path an entry without a link gets the empty string as its URL.  Once
  the article table holds an article with the empty URL (persisting a dictionary with the
  empty URL leaves one there), a run adds no further article with the empty URL, and the
  unit of work of a feed whose first ten entries all lack a link adds no article and no
  association row at all.
\<close>

theorem linkless_entries_share_empty_url:
  "(e_link e = None \<longrightarrow> d_url (entry_data w kws e) = []) \<and>
   (d_url d = [] \<and> persist_article now src d (tx, b) = Inr (tx', b') \<longrightarrow>
      [] \<in> art_url ` set (articles tx')) \<and>
   ([] \<in> art_url ` set (articles db) \<longrightarrow>
      (\<forall>a\<in>set (drop (length (articles db)) (articles (snd (run_content_scraping w db)))).
         art_url a \<noteq> [])) \<and>
   ([] \<in> art_url ` set (articles db) \<and> source_type src = ''rss'' \<and>
    feed_entries w (src_url src) = Some es \<and> (\<forall>e\<in>set (take 10 es). e_link e = None) \<and>
    process_source w kws db src = Inr db' \<longrightarrow>
      articles db' = articles db \<and> article_keywords db' = article_keywords db)"
proof -
  have c1: "e_link e = None \<longrightarrow> d_url (entry_data w kws e) = []"
    by (simp add: entry_data_def get_or_def)
  have c2: "d_url d = [] \<and> persist_article now src d (tx, b) = Inr (tx', b') \<longrightarrow>
      [] \<in> art_url ` set (articles tx')"
  proof
    assume a: "d_url d = [] \<and> persist_article now src d (tx, b) = Inr (tx', b')"
    then have p: "persist_article now src d (tx, b) = Inr (tx', b')" by simp
    from persist_article_cases [OF p] a show "[] \<in> art_url ` set (articles tx')"
      by (auto simp: new_article_def image_iff)
  qed
  have c3: "[] \<in> art_url ` set (articles db) \<longrightarrow>
      (\<forall>a\<in>set (drop (length (articles db)) (articles (snd (run_content_scraping w db)))).
         art_url a \<noteq> [])"
  proof
  assume k: "[] \<in> art_url ` set (articles db)"
  have "fresh_ext (articles db) (articles (snd (run_content_scraping w db)))"
    by (simp add: run_content_scraping_def run_sources_fresh)
  then obtain new where n: "articles (snd (run_content_scraping w db)) = articles db @ new"
    and f: "list_all (\<lambda>a. art_url a \<notin> art_url ` set (articles db)) new"
    by (auto simp: fresh_ext_def)
  show "\<forall>a\<in>set (drop (length (articles db)) (articles (snd (run_content_scraping w db)))).
         art_url a \<noteq> []"
  proof
    fix a assume "a \<in> set (drop (length (articles db)) (articles (snd (run_content_scraping w db))))"
    then have "a \<in> set new" by (simp add: n)
    with f have "art_url a \<notin> art_url ` set (articles db)" by (simp add: list_all_iff)
    with k show "art_url a \<noteq> []" by metis
  qed
  qed
  have c4: "[] \<in> art_url ` set (articles db) \<and> source_type src = ''rss'' \<and>
    feed_entries w (src_url src) = Some es \<and> (\<forall>e\<in>set (take 10 es). e_link e = None) \<and>
    process_source w kws db src = Inr db' \<longrightarrow>
      articles db' = articles db \<and> article_keywords db' = article_keywords db"
  proof
  assume a: "[] \<in> art_url ` set (articles db) \<and> source_type src = ''rss'' \<and>
    feed_entries w (src_url src) = Some es \<and> (\<forall>e\<in>set (take 10 es). e_link e = None) \<and>
    process_source w kws db src = Inr db'"
  then have sc: "scraped w kws src =
      map (entry_data w kws) (filter (\<lambda>e. entry_matches kws e \<noteq> []) (take 10 es))"
    by (simp add: scraped_def scrape_rss_eq)
  have known: "\<forall>d\<in>set (scraped w kws src). d_url d \<in> art_url ` set (articles db)"
  proof
    fix d assume "d \<in> set (scraped w kws src)"
    then obtain e where "e \<in> set (take 10 es)" and "d = entry_data w kws e"
      by (auto simp: sc)
    with a have "d_url d = []" by (simp add: entry_data_def get_or_def)
    with a show "d_url d \<in> art_url ` set (articles db)" by simp
  qed
  from a have "process_source w kws db src = Inr db'" by simp
  from process_source_Inr [OF this] obtain tx b where
    p: "persist_articles (utcnow w (src_id src)) src (scraped w kws src)
          (db, storage_fault w (src_id src)) = Inr (tx, b)"
    and db': "db' = set_last_scraped (src_id src) (utcnow w (src_id src)) tx"
    by blast
  from persist_articles_all_known [OF known p] have "tx = db" .
  then show "articles db' = articles db \<and> article_keywords db' = article_keywords db"
    by (simp add: db')
  qed
  from c1 c2 c3 c4 show ?thesis by (intro conjI)
qed

lemma ev10_commit: "process_source world10 [kw_python, kw_rust] db10 src_feed = Inr db11"
  by code_simp

lemma ev10_urls: "map art_url (articles db10) = [[]]"
  by code_simp

lemma ev10_titles: "map art_title (articles db10) = [''Python A'']"
  by code_simp

lemma ev10_feed:
  "feed_entries world10 (src_url src_feed) =
     Some [entry_nolink ''Python A'', entry_nolink ''Python B'']"
  by (simp add: world10_def src_feed_def)

theorem linkless_entries_share_empty_url_witness:
  "e_link (entry_nolink ''Python B'') = None \<and>
   d_url (entry_data world10 [kw_python, kw_rust] (entry_nolink ''Python B'')) = [] \<and>
   map art_title (articles db10) = [''Python A''] \<and>
   [] \<in> art_url ` set (articles db10) \<and>
   source_type src_feed = ''rss'' \<and>
   feed_entries world10 (src_url src_feed) =
     Some [entry_nolink ''Python A'', entry_nolink ''Python B''] \<and>
   process_source world10 [kw_python, kw_rust] db10 src_feed = Inr db11 \<and>
   articles db11 = articles db10 \<and> article_keywords db11 = article_keywords db10"
proof -
  have n: "e_link (entry_nolink ''Python B'') = None"
    by (simp add: entry_nolink_def)
  have k: "[] \<in> art_url ` set (articles db10)"
  proof -
    have "[] \<in> set (map art_url (articles db10))"
      by (simp only: ev10_urls) simp
    then show ?thesis by simp
  qed
  have t: "source_type src_feed = ''rss''"
    by (simp add: src_feed_def)
  have l: "\<forall>e\<in>set (take 10 [entry_nolink ''Python A'', entry_nolink ''Python B'']).
             e_link e = None"
    by (simp add: entry_nolink_def)
  from linkless_entries_share_empty_url
    [where e = "entry_nolink ''Python B''" and w = world10 and kws = "[kw_python, kw_rust]"
      and db = db10 and src = src_feed
      and es = "[entry_nolink ''Python A'', entry_nolink ''Python B'']" and db' = db11]
  have "d_url (entry_data world10 [kw_python, kw_rust] (entry_nolink ''Python B'')) = []"
    and "articles db11 = articles db10 \<and> article_keywords db11 = article_keywords db10"
    using n k t ev10_feed l ev10_commit by blast+
  then show ?thesis
    using n k t ev10_feed ev10_commit ev10_titles by simp
qed

end
